theory Spec2Isabelle
  imports Main "HOL-Library.Char_ord" "HOL-Library.List_Lexorder" "HOL-Library.Sublist"
    "HOL-Library.Multiset"
begin

section \<open>SqlTranslate.cpp: tokenizer, pattern compiler, matcher and rewriter\<close>

text \<open>
  The embedding follows \<^verbatim>\<open>src/SqlTranslate.cpp\<close> function by function.
  \<^item> \<^verbatim>\<open>size_t\<close> offsets are \<open>nat\<close>; strings are shorter than \<open>2^64 - 1\<close>, so the only
    arithmetic that can leave the range is an unguarded subtraction, written with its
    wrap-around (\<open>size_sub\<close>).
  \<^item> Every failure of the C++ is a value of \<open>error\<close>: \<^verbatim>\<open>std::out_of_range\<close> thrown by
    \<^verbatim>\<open>string::at\<close> and \<^verbatim>\<open>string::substr\<close>, \<^verbatim>\<open>std::invalid_argument\<close> thrown by
    \<^verbatim>\<open>parseSearchPattern\<close>, and an unchecked \<^verbatim>\<open>vector::operator[]\<close> read outside the
    vector (undefined behaviour in C++), which the model reports as \<open>IndexOutOfBounds\<close>.
  \<^item> \<^verbatim>\<open>std::string::npos\<close> in \<^verbatim>\<open>MatchedPattern::start\<close> is \<open>None\<close>.
  \<^item> \<^verbatim>\<open>std::map<String, String>\<close> is an association list kept in ascending key order
    with unique keys, so that iterating it visits the keys in the order the C++ does.
\<close>

subsection \<open>Errors, strings, characters\<close>

datatype error = OutOfRange | InvalidArgument | IndexOutOfBounds

text \<open>\<^verbatim>\<open>std::string::at(pos)\<close>: throws \<^verbatim>\<open>out_of_range\<close> unless \<open>pos < size()\<close>.\<close>

definition at :: "string \<Rightarrow> nat \<Rightarrow> error + char" where
  "at s pos = (if pos < length s then Inr (s ! pos) else Inl OutOfRange)"

text \<open>\<^verbatim>\<open>std::string::substr(pos, n)\<close>: throws \<^verbatim>\<open>out_of_range\<close> when \<open>pos > size()\<close>,
  otherwise the at most \<open>n\<close> characters from \<open>pos\<close>.\<close>

definition substr :: "string \<Rightarrow> nat \<Rightarrow> nat \<Rightarrow> error + string" where
  "substr s pos n = (if length s < pos then Inl OutOfRange else Inr (take n (drop pos s)))"

text \<open>Subtraction of two \<^verbatim>\<open>size_t\<close> values, wrapping around below zero (written for 64
  bits; the invariants below show that no subtraction of \<open>search\<close> wraps for a compiled
  pattern, so the width decides no result).\<close>

definition size_sub :: "nat \<Rightarrow> nat \<Rightarrow> nat" where
  "size_sub a b = (if b \<le> a then a - b else a + 2 ^ 64 - b)"

text \<open>\<^verbatim>\<open>std::isalnum\<close> and \<^verbatim>\<open>std::isspace\<close> of \<^verbatim>\<open><cctype>\<close>, in the C locale.\<close>

definition isalnum :: "char \<Rightarrow> bool" where
  "isalnum c = (let n = (of_char c :: nat) in
     (48 \<le> n \<and> n \<le> 57) \<or> (65 \<le> n \<and> n \<le> 90) \<or> (97 \<le> n \<and> n \<le> 122))"

definition isspace :: "char \<Rightarrow> bool" where
  "isspace c = (let n = (of_char c :: nat) in n = 32 \<or> (9 \<le> n \<and> n \<le> 13))"

text \<open>Modelled from the spec: \<^verbatim>\<open>toLowerCase\<close> is declared in \<^verbatim>\<open>SqlTranslate.h\<close>, which
  is not among the sources. The spec says the text is lower-cased; the model lower-cases
  every byte as \<^verbatim>\<open>tolower\<close> does in the C locale.\<close>

definition tolower :: "char \<Rightarrow> char" where
  "tolower c = (let n = (of_char c :: nat) in
     if 65 \<le> n \<and> n \<le> 90 then char_of (n + 32) else c)"

definition toLowerCase :: "string \<Rightarrow> string" where
  "toLowerCase s = map tolower s"

text \<open>Modelled from the spec: \<^verbatim>\<open>replaceAll\<close> is declared in \<^verbatim>\<open>SqlTranslate.h\<close>, which is
  not among the sources. The spec: placeholders are "matched by exact literal substring
  replacement (not token-aware) wherever they occur in the template". The model scans
  the source from the left; where the search string starts it emits the replacement and
  continues after the occurrence. An empty search string leaves the source unchanged.\<close>

function replaceAll :: "string \<Rightarrow> string \<Rightarrow> string \<Rightarrow> string" where
  "replaceAll source search replace =
     (if search = [] \<or> source = [] then source
      else if prefix search source
        then replace @ replaceAll (drop (length search) source) search replace
      else hd source # replaceAll (tl source) search replace)"
  by pat_completeness auto
termination
  by (relation "measure (\<lambda>(source, search, replace). length source)") auto

declare replaceAll.simps [simp del]

subsection \<open>Data model\<close>

text \<open>Modelled from the spec: \<^verbatim>\<open>Token\<close>, \<^verbatim>\<open>Block\<close> and \<^verbatim>\<open>MatchedPattern\<close> are declared in
  \<^verbatim>\<open>SqlTranslate.h\<close>; their fields are the ones the code reads and writes
  (\<^verbatim>\<open>start\<close>, \<^verbatim>\<open>end\<close>, \<^verbatim>\<open>text\<close>; \<^verbatim>\<open>text\<close>, \<^verbatim>\<open>isVariable\<close>; \<^verbatim>\<open>start\<close>, \<^verbatim>\<open>end\<close>,
  \<^verbatim>\<open>variableToValue\<close>). The field names carry a prefix because \<open>end\<close> is a keyword and
  two records cannot share a field name.\<close>

record Token =
  tok_start :: nat
  tok_end :: nat
  tok_text :: string

record Block =
  blk_text :: string
  isVariable :: bool

type_synonym StringMap = "(string \<times> string) list"

record MatchedPattern =
  mp_start :: "nat option"
  mp_end :: nat
  variableToValue :: StringMap

text \<open>\<^verbatim>\<open>map[key] = value\<close> on a \<^verbatim>\<open>std::map\<close>: replace the value of an existing key, or
  insert the pair at its place in ascending key order.\<close>

fun map_put :: "string \<Rightarrow> string \<Rightarrow> StringMap \<Rightarrow> StringMap" where
  "map_put k v [] = [(k, v)]"
| "map_put k v ((k', v') # m) =
     (if k = k' then (k, v) # m
      else if k < k' then (k, v) # (k', v') # m
      else (k', v') # map_put k v m)"

subsection \<open>tokenize (lines 48 to 100)\<close>

record tok_state =
  ts_start :: nat
  commentType1 :: bool
  commentType2 :: bool
  tokens :: "Token list"

text \<open>The three statements that fill a \<^verbatim>\<open>Token\<close> and push it:
  \<^verbatim>\<open>token.start = s; token.end = e; token.text = sql.substr(s, e - s); push_back\<close>.\<close>

definition push_token :: "string \<Rightarrow> nat \<Rightarrow> nat \<Rightarrow> tok_state \<Rightarrow> error + tok_state" where
  "push_token sql s e st =
     (case substr sql s (e - s) of
        Inl err \<Rightarrow> Inl err
      | Inr txt \<Rightarrow>
          Inr (st\<lparr>tokens := tokens st @ [\<lparr>tok_start = s, tok_end = e, tok_text = txt\<rparr>]\<rparr>))"

text \<open>The comment tests of lines 75 and 77:
  \<^verbatim>\<open>ch == c1 && cursor < sql.length() && sql.at(cursor + 1) == c2\<close>, evaluated left to
  right with short circuit. The middle test compares \<open>cursor\<close>, not \<open>cursor + 1\<close>.\<close>

definition starts_comment :: "string \<Rightarrow> nat \<Rightarrow> char \<Rightarrow> char \<Rightarrow> char \<Rightarrow> error + bool" where
  "starts_comment sql cursor ch c1 c2 =
     (if ch = c1 \<and> cursor < length sql
      then (case at sql (cursor + 1) of Inl err \<Rightarrow> Inl err | Inr nx \<Rightarrow> Inr (nx = c2))
      else Inr False)"

text \<open>One iteration of the \<^verbatim>\<open>for\<close> loop of lines 54 to 89.\<close>

definition tokenize_step :: "string \<Rightarrow> nat \<Rightarrow> tok_state \<Rightarrow> error + tok_state" where
  "tokenize_step sql cursor st =
     (case at sql cursor of
        Inl err \<Rightarrow> Inl err
      | Inr ch \<Rightarrow>
          if commentType1 st then
            (if ch = CHR 0x0A
             then Inr (st\<lparr>commentType1 := False, ts_start := cursor + 1\<rparr>)
             else Inr st)
          else if commentType2 st then
            (if ch = CHR ''/'' \<and> 0 < cursor
             then (case at sql (cursor - 1) of
                     Inl err \<Rightarrow> Inl err
                   | Inr pv \<Rightarrow>
                       if pv = CHR ''*''
                       then Inr (st\<lparr>commentType2 := False, ts_start := cursor + 1\<rparr>)
                       else Inr st)
             else Inr st)
          else if \<not> isalnum ch \<and> ch \<noteq> CHR ''_'' \<and> ch \<noteq> CHR ''@'' then
            (case (if ts_start st < cursor then push_token sql (ts_start st) cursor st
                   else Inr st) of
               Inl err \<Rightarrow> Inl err
             | Inr st1 \<Rightarrow>
                 (case starts_comment sql cursor ch (CHR ''-'') (CHR ''-'') of
                    Inl err \<Rightarrow> Inl err
                  | Inr True \<Rightarrow> Inr (st1\<lparr>commentType1 := True, ts_start := cursor + 1\<rparr>)
                  | Inr False \<Rightarrow>
                      (case starts_comment sql cursor ch (CHR ''/'') (CHR ''*'') of
                         Inl err \<Rightarrow> Inl err
                       | Inr True \<Rightarrow> Inr (st1\<lparr>commentType2 := True, ts_start := cursor + 1\<rparr>)
                       | Inr False \<Rightarrow>
                           (case (if \<not> isspace ch then push_token sql cursor (cursor + 1) st1
                                  else Inr st1) of
                              Inl err \<Rightarrow> Inl err
                            | Inr st2 \<Rightarrow> Inr (st2\<lparr>ts_start := cursor + 1\<rparr>)))))
          else Inr st)"

function tokenize_loop :: "string \<Rightarrow> nat \<Rightarrow> tok_state \<Rightarrow> error + (nat \<times> tok_state)" where
  "tokenize_loop sql cursor st =
     (if cursor < length sql
      then (case tokenize_step sql cursor st of
              Inl err \<Rightarrow> Inl err
            | Inr st' \<Rightarrow> tokenize_loop sql (cursor + 1) st')
      else Inr (cursor, st))"
  by pat_completeness auto
termination
  by (relation "measure (\<lambda>(sql, cursor, st). length sql - cursor)") auto

declare tokenize_loop.simps [simp del]

definition tokenize :: "string \<Rightarrow> error + Token list" where
  "tokenize sql =
     (case tokenize_loop sql 0
             \<lparr>ts_start = 0, commentType1 = False, commentType2 = False, tokens = []\<rparr> of
        Inl err \<Rightarrow> Inl err
      | Inr (cursor, st) \<Rightarrow>
          (case (if ts_start st < cursor then push_token sql (ts_start st) cursor st
                 else Inr st) of
             Inl err \<Rightarrow> Inl err
           | Inr st' \<Rightarrow> Inr (tokens st')))"

subsection \<open>parseSearchPattern (lines 102 to 116)\<close>

text \<open>An unchecked \<^verbatim>\<open>vector::operator[]\<close> read of a block.\<close>

definition block_at :: "Block list \<Rightarrow> nat \<Rightarrow> error + Block" where
  "block_at blocks i = (if i < length blocks then Inr (blocks ! i) else Inl IndexOutOfBounds)"

text \<open>The body of the loop of lines 105 to 110: \<^verbatim>\<open>text.length() > 1\<close> guards
  \<^verbatim>\<open>text.at(0)\<close>, so that read cannot throw.\<close>

definition to_block :: "Token \<Rightarrow> Block" where
  "to_block t =
     \<lparr>blk_text = tok_text t,
      isVariable = (1 < length (tok_text t) \<and> tok_text t ! 0 = CHR ''@'')\<rparr>"

text \<open>\<^verbatim>\<open>blocks.size() - 1\<close> is a \<^verbatim>\<open>size_t\<close> subtraction: on an empty vector it wraps.\<close>

definition parseSearchPattern :: "string \<Rightarrow> error + Block list" where
  "parseSearchPattern pattern =
     (case tokenize (toLowerCase pattern) of
        Inl err \<Rightarrow> Inl err
      | Inr toks \<Rightarrow>
          (let blocks = map to_block toks in
           case block_at blocks 0 of
             Inl err \<Rightarrow> Inl err
           | Inr b0 \<Rightarrow>
               if isVariable b0 then Inl InvalidArgument
               else (case block_at blocks (size_sub (length blocks) 1) of
                       Inl err \<Rightarrow> Inl err
                     | Inr bl \<Rightarrow> if isVariable bl then Inl InvalidArgument else Inr blocks)))"

subsection \<open>search (lines 118 to 171)\<close>

record search_state =
  matchCount :: nat
  varStart :: nat
  nestStack :: "string list"
  matchedPattern :: MatchedPattern

text \<open>The stack is a list with its top at the head. Lines 139 to 150, the nesting
  bookkeeping for a token that did not end the capture.\<close>

definition nest_track :: "string \<Rightarrow> string list \<Rightarrow> string list" where
  "nest_track txt stk =
     (if stk \<noteq> [] \<and> (hd stk = [CHR 0x22] \<or> hd stk = [CHR 0x27]) then
        (if txt = hd stk then tl stk else stk)
      else if txt = [CHR 0x22] \<or> txt = [CHR 0x27] then txt # stk
      else if txt = ''('' then txt # stk
      else if stk \<noteq> [] \<and> txt = '')'' \<and> hd stk = ''('' then tl stk
      else stk)"

datatype step_result = Return MatchedPattern | Continue search_state

text \<open>Lines 132 to 137 and 158 to 163, after \<open>matchCount\<close> has been advanced: return
  when the pattern is used up, else start a capture if the next block is a variable.\<close>

definition advance :: "Block list \<Rightarrow> Token \<Rightarrow> search_state \<Rightarrow> error + step_result" where
  "advance parsedPattern token st =
     (if matchCount st = length parsedPattern
      then Inr (Return ((matchedPattern st)\<lparr>mp_end := tok_end token\<rparr>))
      else (case block_at parsedPattern (matchCount st) of
              Inl err \<Rightarrow> Inl err
            | Inr b \<Rightarrow>
                if isVariable b then Inr (Continue (st\<lparr>varStart := tok_end token\<rparr>))
                else Inr (Continue st)))"

text \<open>The test of line 128: \<^verbatim>\<open>nestStack.size() == 0 && token.text ==
  parsedPattern[matchCount + 1].text\<close>; the block is read only when the stack is empty.\<close>

definition is_terminator :: "Block list \<Rightarrow> Token \<Rightarrow> search_state \<Rightarrow> error + bool" where
  "is_terminator parsedPattern token st =
     (if nestStack st = []
      then (case block_at parsedPattern (matchCount st + 1) of
              Inl err \<Rightarrow> Inl err
            | Inr nb \<Rightarrow> Inr (tok_text token = blk_text nb))
      else Inr False)"

text \<open>One iteration of the loop of lines 125 to 168.\<close>

definition search_step ::
  "string \<Rightarrow> Block list \<Rightarrow> Token \<Rightarrow> search_state \<Rightarrow> error + step_result" where
  "search_step sql parsedPattern token st =
     (case block_at parsedPattern (matchCount st) of
        Inl err \<Rightarrow> Inl err
      | Inr b \<Rightarrow>
          if isVariable b then
            (case is_terminator parsedPattern token st of
               Inl err \<Rightarrow> Inl err
             | Inr True \<Rightarrow>
                 (case substr sql (varStart st) (size_sub (tok_start token) (varStart st)) of
                    Inl err \<Rightarrow> Inl err
                  | Inr v \<Rightarrow>
                      advance parsedPattern token
                        (st\<lparr>matchedPattern := (matchedPattern st)
                               \<lparr>variableToValue :=
                                  map_put (blk_text b) v (variableToValue (matchedPattern st))\<rparr>,
                            matchCount := matchCount st + 2\<rparr>))
             | Inr False \<Rightarrow>
                 Inr (Continue (st\<lparr>nestStack := nest_track (tok_text token) (nestStack st)\<rparr>)))
          else if tok_text token = blk_text b then
            advance parsedPattern token
              (st\<lparr>matchedPattern :=
                     (if matchCount st = 0
                      then (matchedPattern st)\<lparr>mp_start := Some (tok_start token)\<rparr>
                      else matchedPattern st),
                  matchCount := matchCount st + 1\<rparr>)
          else Inr (Continue (st\<lparr>matchCount := 0\<rparr>)))"

text \<open>The loop visits the tokens in order (\<^verbatim>\<open>tokens.at(cursor)\<close> with
  \<open>cursor < tokens.size()\<close> cannot throw). Falling out of the loop sets \<open>start\<close> to
  \<^verbatim>\<open>npos\<close> (lines 169 and 170).\<close>

fun search_loop ::
  "string \<Rightarrow> Block list \<Rightarrow> Token list \<Rightarrow> search_state \<Rightarrow> error + MatchedPattern" where
  "search_loop sql parsedPattern [] st = Inr ((matchedPattern st)\<lparr>mp_start := None\<rparr>)"
| "search_loop sql parsedPattern (token # rest) st =
     (case search_step sql parsedPattern token st of
        Inl err \<Rightarrow> Inl err
      | Inr (Return m) \<Rightarrow> Inr m
      | Inr (Continue st') \<Rightarrow> search_loop sql parsedPattern rest st')"

text \<open>The fields \<open>start\<close> and \<open>end\<close> of a fresh \<^verbatim>\<open>MatchedPattern\<close> are never read before
  they are written: every returned result has \<open>start\<close> set by line 155 or 169, and
  \<open>end\<close> is only read when \<open>start\<close> is not \<^verbatim>\<open>npos\<close>.\<close>

definition init_search :: search_state where
  "init_search =
     \<lparr>matchCount = 0, varStart = 0, nestStack = [],
      matchedPattern = \<lparr>mp_start = None, mp_end = 0, variableToValue = []\<rparr>\<rparr>"

definition search :: "string \<Rightarrow> Block list \<Rightarrow> error + MatchedPattern" where
  "search sql parsedPattern =
     (case tokenize (toLowerCase sql) of
        Inl err \<Rightarrow> Inl err
      | Inr toks \<Rightarrow> search_loop sql parsedPattern toks init_search)"

subsection \<open>searchAndReplace (lines 173 to 186) and translateSql (lines 188 to 197)\<close>

text \<open>Lines 177 to 180: the template with every pair of the map substituted, the pairs
  taken in the map's iteration order.\<close>

definition substitute :: "StringMap \<Rightarrow> string \<Rightarrow> string" where
  "substitute m replacePattern = fold (\<lambda>(k, v) r. replaceAll r k v) m replacePattern"

text \<open>Line 181: \<^verbatim>\<open>result.substr(0, start) + replacement + result.substr(end, length - end)\<close>.\<close>

definition splice :: "string \<Rightarrow> nat \<Rightarrow> nat \<Rightarrow> string \<Rightarrow> error + string" where
  "splice result s e replacement =
     (case substr result 0 s of
        Inl err \<Rightarrow> Inl err
      | Inr pre \<Rightarrow>
          (case substr result e (size_sub (length result) e) of
             Inl err \<Rightarrow> Inl err
           | Inr post \<Rightarrow> Inr (pre @ replacement @ post)))"

text \<open>The \<^verbatim>\<open>while\<close> loop of lines 176 to 183 has no bound: \<open>None\<close> is the loop that never
  ends, \<open>Some (Inl e)\<close> an exception, \<open>Some (Inr s)\<close> the returned string.\<close>

partial_function (option) replace_loop ::
  "string \<Rightarrow> Block list \<Rightarrow> string \<Rightarrow> MatchedPattern \<Rightarrow> (error + string) option" where
  "replace_loop result parsedPattern replacePattern m =
     (case mp_start m of
        None \<Rightarrow> Some (Inr result)
      | Some s \<Rightarrow>
          (case splice result s (mp_end m) (substitute (variableToValue m) replacePattern) of
             Inl err \<Rightarrow> Some (Inl err)
           | Inr result' \<Rightarrow>
               (case search result' parsedPattern of
                  Inl err \<Rightarrow> Some (Inl err)
                | Inr m' \<Rightarrow> replace_loop result' parsedPattern replacePattern m')))"

declare replace_loop.simps [code]

definition searchAndReplace :: "string \<Rightarrow> Block list \<Rightarrow> string \<Rightarrow> (error + string) option" where
  "searchAndReplace sql parsedPattern replacePattern =
     (case search sql parsedPattern of
        Inl err \<Rightarrow> Some (Inl err)
      | Inr m \<Rightarrow> replace_loop sql parsedPattern replacePattern m)"

text \<open>Modelled from the spec: \<^verbatim>\<open>ReplacementPatterns\<close> is declared in \<^verbatim>\<open>SqlTranslate.h\<close>;
  the spec's rule set is an ordered sequence of (search pattern, replacement template)
  pairs, visited in order.\<close>

fun translateSql :: "string \<Rightarrow> (string \<times> string) list \<Rightarrow> (error + string) option" where
  "translateSql str [] = Some (Inr str)"
| "translateSql str ((pat, repl) # rules) =
     (case parseSearchPattern pat of
        Inl err \<Rightarrow> Some (Inl err)
      | Inr parsedPattern \<Rightarrow>
          (case searchAndReplace str parsedPattern repl of
             None \<Rightarrow> None
           | Some (Inl err) \<Rightarrow> Some (Inl err)
           | Some (Inr result) \<Rightarrow> translateSql result rules))"

section \<open>Predicates used in the statements and invariants\<close>

text \<open>A token lies inside \<open>sql\<close>, is not empty, and its text is the substring between its
  offsets.\<close>

definition token_ok :: "string \<Rightarrow> Token \<Rightarrow> bool" where
  "token_ok sql t =
     (tok_start t < tok_end t \<and> tok_end t \<le> length sql \<and>
      tok_text t = take (tok_end t - tok_start t) (drop (tok_start t) sql))"

text \<open>Tokens are in source order and do not overlap.\<close>

definition tokens_sorted :: "Token list \<Rightarrow> bool" where
  "tokens_sorted ts = sorted_wrt (\<lambda>a b. tok_end a \<le> tok_start b) ts"

definition toks_inv :: "string \<Rightarrow> nat \<Rightarrow> Token list \<Rightarrow> bool" where
  "toks_inv sql bound ts =
     (list_all (token_ok sql) ts \<and> list_all (\<lambda>t. tok_end t \<le> bound) ts \<and> tokens_sorted ts)"

text \<open>The invariant of the tokenizer loop, at the head of the iteration for \<open>cursor\<close>.\<close>

definition tok_inv :: "string \<Rightarrow> nat \<Rightarrow> tok_state \<Rightarrow> bool" where
  "tok_inv sql cursor st =
     (ts_start st \<le> cursor \<and> cursor \<le> length sql \<and> toks_inv sql (ts_start st) (tokens st))"

text \<open>What \<open>parseSearchPattern\<close> guarantees of a pattern it returns.\<close>

definition compiled :: "Block list \<Rightarrow> bool" where
  "compiled pat = (pat \<noteq> [] \<and> \<not> isVariable (hd pat) \<and> \<not> isVariable (last pat))"

text \<open>The characters of \<open>s\<close> from offset \<open>i\<close> (inclusive) to offset \<open>j\<close> (exclusive).\<close>

definition slice :: "string \<Rightarrow> nat \<Rightarrow> nat \<Rightarrow> string" where
  "slice s i j = take (j - i) (drop i s)"

text \<open>A binding \<open>kv\<close> is a capture of the pattern in \<open>sql\<close>: its key is the text of a variable
  block \<open>i\<close>, and its value is the slice of \<open>sql\<close> from the end of a token whose text is that of
  block \<open>i - 1\<close> to the start of a token whose text is that of block \<open>i + 1\<close>, the terminator.\<close>

definition capture_of :: "Block list \<Rightarrow> Token list \<Rightarrow> string \<Rightarrow> string \<times> string \<Rightarrow> bool" where
  "capture_of pat toks sql kv =
     (\<exists>i \<in> set [1 ..< length pat - 1].
        isVariable (pat ! i) \<and> fst kv = blk_text (pat ! i) \<and>
        (\<exists>t1 \<in> set toks. \<exists>t2 \<in> set toks.
           tok_text t1 = blk_text (pat ! (i - 1)) \<and> tok_text t2 = blk_text (pat ! (i + 1)) \<and>
           tok_end t1 \<le> tok_start t2 \<and> snd kv = slice sql (tok_end t1) (tok_start t2)))"

definition captures_ok :: "Block list \<Rightarrow> Token list \<Rightarrow> string \<Rightarrow> StringMap \<Rightarrow> bool" where
  "captures_ok pat toks sql m = list_all (capture_of pat toks sql) m"

definition start_ok :: "Token list \<Rightarrow> Token list \<Rightarrow> MatchedPattern \<Rightarrow> bool" where
  "start_ok toks rest m =
     (\<exists>s. mp_start m = Some s \<and> (\<exists>t \<in> set toks. tok_start t = s) \<and>
          list_all (\<lambda>t. s \<le> tok_start t) rest)"

definition var_ok :: "Token list \<Rightarrow> Token list \<Rightarrow> string \<Rightarrow> string \<Rightarrow> nat \<Rightarrow> bool" where
  "var_ok toks rest sql txt vs =
     (vs \<le> length sql \<and> (\<exists>t \<in> set toks. tok_end t = vs \<and> tok_text t = txt) \<and>
      list_all (\<lambda>t. vs \<le> tok_start t) rest)"

text \<open>The invariant of the loop of \<open>search\<close>; \<open>toks\<close> are all tokens of the subject, \<open>rest\<close> the
  ones not yet visited.\<close>

definition search_inv ::
  "string \<Rightarrow> Block list \<Rightarrow> Token list \<Rightarrow> Token list \<Rightarrow> search_state \<Rightarrow> bool" where
  "search_inv sql pat toks rest st =
     (matchCount st < length pat \<and>
      (if isVariable (pat ! matchCount st)
       then var_ok toks rest sql (blk_text (pat ! (matchCount st - 1))) (varStart st) else True) \<and>
      (if 0 < matchCount st then start_ok toks rest (matchedPattern st) else True) \<and>
      captures_ok pat toks sql (variableToValue (matchedPattern st)))"

text \<open>What holds of a match that \<open>search\<close> returns from inside the loop.\<close>

definition result_ok :: "Block list \<Rightarrow> Token list \<Rightarrow> string \<Rightarrow> MatchedPattern \<Rightarrow> bool" where
  "result_ok pat toks sql m =
     (\<exists>s. mp_start m = Some s \<and> s < mp_end m \<and> mp_end m \<le> length sql \<and>
          (\<exists>t \<in> set toks. tok_start t = s) \<and> (\<exists>t \<in> set toks. tok_end t = mp_end m) \<and>
          captures_ok pat toks sql (variableToValue m))"

text \<open>What the loop knows about the current token \<open>t\<close> and the tokens after it.\<close>

definition cur_ok :: "Token list \<Rightarrow> string \<Rightarrow> Token \<Rightarrow> Token list \<Rightarrow> bool" where
  "cur_ok toks sql t rest =
     (t \<in> set toks \<and> tok_start t < tok_end t \<and> tok_end t \<le> length sql \<and>
      list_all (\<lambda>t'. tok_end t \<le> tok_start t') rest)"

text \<open>Two strings, two binding maps, two results and two loop states that differ only in
  the letter case of captured text.\<close>

definition same_lower :: "string \<Rightarrow> string \<Rightarrow> bool" where
  "same_lower v v' = (toLowerCase v = toLowerCase v')"

definition bind_rel :: "StringMap \<Rightarrow> StringMap \<Rightarrow> bool" where
  "bind_rel m m' = list_all2 (\<lambda>kv kv'. fst kv = fst kv' \<and> same_lower (snd kv) (snd kv')) m m'"

definition mp_rel :: "MatchedPattern \<Rightarrow> MatchedPattern \<Rightarrow> bool" where
  "mp_rel m m' =
     (mp_start m = mp_start m' \<and> mp_end m = mp_end m' \<and>
      bind_rel (variableToValue m) (variableToValue m'))"

definition st_rel :: "search_state \<Rightarrow> search_state \<Rightarrow> bool" where
  "st_rel st st' =
     (matchCount st = matchCount st' \<and> varStart st = varStart st' \<and>
      nestStack st = nestStack st' \<and> mp_rel (matchedPattern st) (matchedPattern st'))"

fun step_rel :: "step_result \<Rightarrow> step_result \<Rightarrow> bool" where
  "step_rel (Return m) (Return m') = mp_rel m m'"
| "step_rel (Continue st) (Continue st') = st_rel st st'"
| "step_rel _ _ = False"

text \<open>\<open>search\<close> returns normally and finds no match of the pattern in \<open>sql\<close>.\<close>

definition no_match :: "string \<Rightarrow> Block list \<Rightarrow> bool" where
  "no_match sql pat = (case search sql pat of Inl e \<Rightarrow> False | Inr m \<Rightarrow> mp_start m = None)"

text \<open>The rule's pattern compiles and has no match in \<open>sql\<close>.\<close>

definition rule_inert :: "string \<Rightarrow> string \<times> string \<Rightarrow> bool" where
  "rule_inert sql rule =
     (case parseSearchPattern (fst rule) of Inl e \<Rightarrow> False | Inr pat \<Rightarrow> no_match sql pat)"

text \<open>A variable name of the shape the amended C7 needs: an \<open>@\<close> followed by characters other
  than \<open>@\<close>.\<close>

definition key_ok :: "string \<Rightarrow> bool" where
  "key_ok k = (k \<noteq> [] \<and> hd k = CHR ''@'' \<and> CHR ''@'' \<notin> set (tl k))"

text \<open>Distinct names of that shape, none a prefix of another.\<close>

definition keys_ok :: "string list \<Rightarrow> bool" where
  "keys_ok ks =
     (distinct ks \<and> list_all key_ok ks \<and> (\<forall>k \<in> set ks. \<forall>k' \<in> set ks. prefix k k' \<longrightarrow> k = k'))"

text \<open>Such names, bound to values without \<open>@\<close>.\<close>

definition bindings_ok :: "StringMap \<Rightarrow> bool" where
  "bindings_ok bs = (keys_ok (map fst bs) \<and> list_all (\<lambda>kv. CHR ''@'' \<notin> set (snd kv)) bs)"

text \<open>Every \<open>@\<close> of the string starts one of the names \<open>ks\<close>.\<close>

fun covered :: "string list \<Rightarrow> string \<Rightarrow> bool" where
  "covered ks [] = True"
| "covered ks (c # cs) =
     ((if c = CHR ''@'' then list_ex (\<lambda>k. prefix k (c # cs)) ks else True) \<and> covered ks cs)"

section \<open>Invariants of the tokenizer and the matcher\<close>

subsection \<open>The loop invariant of tokenize\<close>

lemma toks_inv_mono: "toks_inv sql b ts \<Longrightarrow> b \<le> b' \<Longrightarrow> toks_inv sql b' ts"
  by (fastforce simp: toks_inv_def list_all_iff)

lemma push_token_inv:
  assumes "toks_inv sql s (tokens st)" "s < e" "e \<le> length sql"
    "push_token sql s e st = Inr st'"
  shows "toks_inv sql e (tokens st') \<and> ts_start st' = ts_start st \<and>
    commentType1 st' = commentType1 st \<and> commentType2 st' = commentType2 st"
  using assms
  by (fastforce simp: push_token_def substr_def token_ok_def tokens_sorted_def sorted_wrt_append
      toks_inv_def list_all_iff split: if_splits)

lemma flush_inv:
  assumes "tok_inv sql cursor st"
    "(if ts_start st < cursor then push_token sql (ts_start st) cursor st else Inr st) = Inr st1"
  shows "toks_inv sql cursor (tokens st1)"
proof (cases "ts_start st < cursor")
  case True
  with assms show ?thesis
    using push_token_inv[of sql "ts_start st" st cursor st1] by (simp add: tok_inv_def)
next
  case False
  with assms show ?thesis by (auto simp: tok_inv_def intro: toks_inv_mono)
qed

lemma tokenize_step_inv:
  assumes inv: "tok_inv sql cursor st" and lt: "cursor < length sql"
    and step: "tokenize_step sql cursor st = Inr st'"
  shows "tok_inv sql (cursor + 1) st'"
proof -
  have keep: "toks_inv sql (cursor + 1) (tokens st)"
    using inv by (auto simp: tok_inv_def intro: toks_inv_mono)
  have at: "at sql cursor = Inr (sql ! cursor)"
    using lt by (simp add: at_def)
  show ?thesis
  proof (cases "commentType1 st \<or> commentType2 st \<or>
      \<not> (\<not> isalnum (sql ! cursor) \<and> sql ! cursor \<noteq> CHR ''_'' \<and> sql ! cursor \<noteq> CHR ''@'')")
    case True
    then have "tokens st' = tokens st \<and> (ts_start st' = ts_start st \<or> ts_start st' = cursor + 1)"
      using step at unfolding tokenize_step_def
      by (auto simp: at_def split: if_splits)
    then show ?thesis
      using inv lt keep by (auto simp: tok_inv_def)
  next
    case False
    then obtain st1 where
      st1: "(if ts_start st < cursor then push_token sql (ts_start st) cursor st else Inr st) = Inr st1"
      using step at unfolding tokenize_step_def by (auto split: sum.splits)
    have inv1: "toks_inv sql cursor (tokens st1)"
      using flush_inv[OF inv st1] .
    have rest: "(case starts_comment sql cursor (sql ! cursor) (CHR ''-'') (CHR ''-'') of
                    Inl err \<Rightarrow> Inl err
                  | Inr True \<Rightarrow> Inr (st1\<lparr>commentType1 := True, ts_start := cursor + 1\<rparr>)
                  | Inr False \<Rightarrow>
                      (case starts_comment sql cursor (sql ! cursor) (CHR ''/'') (CHR ''*'') of
                         Inl err \<Rightarrow> Inl err
                       | Inr True \<Rightarrow> Inr (st1\<lparr>commentType2 := True, ts_start := cursor + 1\<rparr>)
                       | Inr False \<Rightarrow>
                           (case (if \<not> isspace (sql ! cursor) then push_token sql cursor (cursor + 1) st1
                                  else Inr st1) of
                              Inl err \<Rightarrow> Inl err
                            | Inr st2 \<Rightarrow> Inr (st2\<lparr>ts_start := cursor + 1\<rparr>)))) = Inr st'"
      using step at st1 False unfolding tokenize_step_def by simp
    have "ts_start st' = cursor + 1 \<and> toks_inv sql (cursor + 1) (tokens st')"
    proof (cases "\<exists>st2. push_token sql cursor (cursor + 1) st1 = Inr st2 \<and> st' = st2\<lparr>ts_start := cursor + 1\<rparr>")
      case True
      then obtain st2 where p: "push_token sql cursor (cursor + 1) st1 = Inr st2"
        and e: "st' = st2\<lparr>ts_start := cursor + 1\<rparr>" by blast
      from push_token_inv[OF inv1 _ _ p] lt e show ?thesis by simp
    next
      case False
      then have "tokens st' = tokens st1 \<and> ts_start st' = cursor + 1"
        using rest by (auto split: sum.splits bool.splits if_splits)
      then show ?thesis using inv1 by (auto intro: toks_inv_mono)
    qed
    then show ?thesis using lt by (simp add: tok_inv_def)
  qed
qed

lemma tokenize_loop_inv:
  "tok_inv sql cursor st \<Longrightarrow> tokenize_loop sql cursor st = Inr (c', st')
    \<Longrightarrow> c' = length sql \<and> tok_inv sql c' st'"
proof (induction sql cursor st rule: tokenize_loop.induct)
  case (1 sql cursor st)
  show ?case
  proof (cases "cursor < length sql")
    case True
    then obtain st1 where s: "tokenize_step sql cursor st = Inr st1"
      and l: "tokenize_loop sql (cursor + 1) st1 = Inr (c', st')"
      using "1.prems"(2) tokenize_loop.simps[of sql cursor st] by (auto split: sum.splits)
    from tokenize_step_inv[OF "1.prems"(1) True s] "1.IH"[OF True s _ l] show ?thesis by auto
  next
    case False
    then show ?thesis using "1.prems" tokenize_loop.simps[of sql cursor st]
      by (auto simp: tok_inv_def)
  qed
qed

lemma tokenize_inv:
  assumes "tokenize sql = Inr ts"
  shows "toks_inv sql (length sql) ts"
proof -
  let ?st0 = "\<lparr>ts_start = 0, commentType1 = False, commentType2 = False, tokens = []\<rparr>"
  have i0: "tok_inv sql 0 ?st0" by (simp add: tok_inv_def toks_inv_def tokens_sorted_def)
  from assms obtain c st st' where l: "tokenize_loop sql 0 ?st0 = Inr (c, st)"
    and f: "(if ts_start st < c then push_token sql (ts_start st) c st else Inr st) = Inr st'"
    and t: "ts = tokens st'"
    unfolding tokenize_def by (auto split: sum.splits)
  from tokenize_loop_inv[OF i0 l] have c: "c = length sql" and i: "tok_inv sql c st" by auto
  from flush_inv[OF i f] show ?thesis using c t by simp
qed

subsection \<open>Compiled patterns and the block reads of search\<close>

lemma parseSearchPattern_compiled:
  assumes "parseSearchPattern p = Inr pat"
  shows "compiled pat"
  using assms unfolding parseSearchPattern_def compiled_def block_at_def size_sub_def Let_def
  by (auto split: sum.splits if_splits simp: hd_conv_nth last_conv_nth)

lemma compiled_var_next:
  assumes "compiled pat" "i < length pat" "isVariable (pat ! i)"
  shows "0 < i \<and> i + 1 < length pat"
proof -
  from assms(1) have ne: "pat \<noteq> []" and h: "\<not> isVariable (hd pat)" and l: "\<not> isVariable (last pat)"
    by (simp_all add: compiled_def)
  from ne have "hd pat = pat ! 0" and "last pat = pat ! (length pat - 1)"
    by (simp_all add: hd_conv_nth last_conv_nth)
  with h l have h0: "\<not> isVariable (pat ! 0)" and l0: "\<not> isVariable (pat ! (length pat - 1))"
    by simp_all
  have "i \<noteq> 0"
  proof
    assume "i = 0"
    with h0 assms(3) show False by simp
  qed
  moreover have "i \<noteq> length pat - 1"
  proof
    assume "i = length pat - 1"
    with l0 assms(3) show False by simp
  qed
  ultimately show ?thesis using assms(2) by arith
qed

lemma advance_bounds:
  assumes "matchCount st \<le> length pat"
  shows "advance pat tok st \<noteq> Inl e \<and>
    (advance pat tok st = Inr (Continue st') \<longrightarrow> matchCount st' < length pat)"
  using assms unfolding advance_def block_at_def
  by (auto split: if_splits)

lemma search_step_bounds:
  assumes c: "compiled pat" and m: "matchCount st < length pat"
  shows "search_step sql pat tok st \<noteq> Inl IndexOutOfBounds \<and>
    (search_step sql pat tok st = Inr (Continue st') \<longrightarrow> matchCount st' < length pat)"
proof (cases "isVariable (pat ! matchCount st)")
  case True
  from compiled_var_next[OF c m True] have n: "matchCount st + 1 < length pat" by simp
  show ?thesis
  proof (cases "nestStack st = [] \<and> tok_text tok = blk_text (pat ! (matchCount st + 1))")
    case t: True
    show ?thesis
    proof (cases "substr sql (varStart st) (size_sub (tok_start tok) (varStart st))")
      case (Inl e)
      then have "e = OutOfRange" by (auto simp: substr_def split: if_splits)
      with Inl True t m n show ?thesis
        by (simp add: search_step_def block_at_def is_terminator_def)
    next
      case (Inr v)
      let ?st = "st\<lparr>matchedPattern := (matchedPattern st)
                               \<lparr>variableToValue :=
                                  map_put (blk_text (pat ! matchCount st)) v (variableToValue (matchedPattern st))\<rparr>,
                            matchCount := matchCount st + 2\<rparr>"
      have "search_step sql pat tok st = advance pat tok ?st"
        using Inr True t m n by (simp add: search_step_def block_at_def is_terminator_def)
      moreover have "matchCount ?st \<le> length pat" using n by simp
      ultimately show ?thesis using advance_bounds[of ?st pat tok] by simp
    qed
  next
    case False
    then have "search_step sql pat tok st =
      Inr (Continue (st\<lparr>nestStack := nest_track (tok_text tok) (nestStack st)\<rparr>))"
      using True m n by (auto simp: search_step_def block_at_def is_terminator_def)
    then show ?thesis using m by auto
  qed
next
  case False
  show ?thesis
  proof (cases "tok_text tok = blk_text (pat ! matchCount st)")
    case t: True
    let ?st = "st\<lparr>matchedPattern :=
                     (if matchCount st = 0
                      then (matchedPattern st)\<lparr>mp_start := Some (tok_start tok)\<rparr>
                      else matchedPattern st),
                  matchCount := matchCount st + 1\<rparr>"
    have "search_step sql pat tok st = advance pat tok ?st"
      using False t m by (simp add: search_step_def block_at_def)
    moreover have "matchCount ?st \<le> length pat" using m by simp
    ultimately show ?thesis using advance_bounds[of ?st pat tok] by simp
  next
    case f: False
    then have "search_step sql pat tok st = Inr (Continue (st\<lparr>matchCount := 0\<rparr>))"
      using False m by (simp add: search_step_def block_at_def)
    then show ?thesis using m by auto
  qed
qed

lemma search_loop_bounds:
  assumes "compiled pat" "matchCount st < length pat"
  shows "search_loop sql pat toks st \<noteq> Inl IndexOutOfBounds"
  using assms(2)
proof (induction toks arbitrary: st)
  case Nil
  then show ?case by simp
next
  case (Cons tok toks)
  from search_step_bounds[OF assms(1) Cons.prems, of sql tok] Cons.IH
  show ?case by (auto split: sum.splits step_result.splits)
qed

lemma tokenize_step_error: "tokenize_step sql c st = Inl e \<Longrightarrow> e = OutOfRange"
  unfolding tokenize_step_def starts_comment_def push_token_def at_def substr_def
  by (simp split: if_splits sum.splits bool.splits)

lemma tokenize_loop_error: "tokenize_loop sql c st = Inl e \<Longrightarrow> e = OutOfRange"
proof (induction sql c st rule: tokenize_loop.induct)
  case (1 sql cursor st)
  then show ?case
    using tokenize_loop.simps[of sql cursor st]
    by (auto split: if_splits sum.splits dest: tokenize_step_error)
qed

lemma tokenize_error: "tokenize sql = Inl e \<Longrightarrow> e = OutOfRange"
  unfolding tokenize_def push_token_def substr_def
  by (auto split: sum.splits if_splits dest: tokenize_loop_error)

subsection \<open>The loop invariant of search\<close>

lemma captures_ok_put:
  "captures_ok pat toks sql m \<Longrightarrow> capture_of pat toks sql (k, v) \<Longrightarrow> captures_ok pat toks sql (map_put k v m)"
  by (induction m) (auto simp: captures_ok_def)

lemma start_ok_rest:
  "start_ok toks (t # rest) m \<Longrightarrow> start_ok toks rest m"
  by (auto simp: start_ok_def)

lemma var_ok_rest:
  "var_ok toks (t # rest) sql txt vs \<Longrightarrow> var_ok toks rest sql txt vs"
  by (auto simp: var_ok_def)

lemma advance_inv:
  assumes cur: "cur_ok toks sql t rest"
    and mc: "0 < matchCount st" "matchCount st \<le> length pat"
    and tx: "tok_text t = blk_text (pat ! (matchCount st - 1))"
    and so: "start_ok toks (t # rest) (matchedPattern st)"
    and co: "captures_ok pat toks sql (variableToValue (matchedPattern st))"
  shows "(\<exists>m. advance pat t st = Inr (Return m) \<and> result_ok pat toks sql m) \<or>
         (\<exists>st'. advance pat t st = Inr (Continue st') \<and> search_inv sql pat toks rest st')"
proof (cases "matchCount st = length pat")
  case True
  then have "advance pat t st = Inr (Return ((matchedPattern st)\<lparr>mp_end := tok_end t\<rparr>))"
    by (simp add: advance_def)
  moreover have "result_ok pat toks sql ((matchedPattern st)\<lparr>mp_end := tok_end t\<rparr>)"
    using cur so co by (auto simp: result_ok_def start_ok_def cur_ok_def)
  ultimately show ?thesis by blast
next
  case False
  with mc have lt: "matchCount st < length pat" by simp
  show ?thesis
  proof (cases "isVariable (pat ! matchCount st)")
    case True
    then have "advance pat t st = Inr (Continue (st\<lparr>varStart := tok_end t\<rparr>))"
      using False lt by (simp add: advance_def block_at_def)
    moreover have "search_inv sql pat toks rest (st\<lparr>varStart := tok_end t\<rparr>)"
      using cur so co lt mc True tx
      by (auto simp: search_inv_def var_ok_def cur_ok_def start_ok_def)
    ultimately show ?thesis by blast
  next
    case f: False
    then have "advance pat t st = Inr (Continue st)"
      using False lt by (simp add: advance_def block_at_def)
    moreover have "search_inv sql pat toks rest st"
      using cur so co lt mc f
      by (auto simp: search_inv_def start_ok_def)
    ultimately show ?thesis by blast
  qed
qed

lemma compiled_first: "compiled pat \<Longrightarrow> 0 < length pat \<and> \<not> isVariable (pat ! 0)"
  by (cases pat) (simp_all add: compiled_def)

lemma search_step_inv:
  assumes c: "compiled pat" and cur: "cur_ok toks sql t rest"
    and inv: "search_inv sql pat toks (t # rest) st"
  shows "(\<exists>m. search_step sql pat t st = Inr (Return m) \<and> result_ok pat toks sql m) \<or>
         (\<exists>st'. search_step sql pat t st = Inr (Continue st') \<and> search_inv sql pat toks rest st')"
proof -
  from inv have m: "matchCount st < length pat"
    and co: "captures_ok pat toks sql (variableToValue (matchedPattern st))"
    by (simp_all add: search_inv_def)
  show ?thesis
  proof (cases "isVariable (pat ! matchCount st)")
    case True
    from compiled_var_next[OF c m True] have n: "matchCount st + 1 < length pat"
      and p: "0 < matchCount st" by simp_all
    from inv True p have vo: "var_ok toks (t # rest) sql (blk_text (pat ! (matchCount st - 1))) (varStart st)"
      and so: "start_ok toks (t # rest) (matchedPattern st)"
      by (simp_all add: search_inv_def)
    show ?thesis
    proof (cases "nestStack st = [] \<and> tok_text t = blk_text (pat ! (matchCount st + 1))")
      case tm: True
      let ?v = "slice sql (varStart st) (tok_start t)"
      let ?st = "st\<lparr>matchedPattern := (matchedPattern st)
                   \<lparr>variableToValue :=
                      map_put (blk_text (pat ! matchCount st)) ?v
                        (variableToValue (matchedPattern st))\<rparr>,
                 matchCount := matchCount st + 2\<rparr>"
      have sub: "substr sql (varStart st) (size_sub (tok_start t) (varStart st)) = Inr ?v"
        using vo by (simp add: var_ok_def substr_def size_sub_def slice_def)
      have step: "search_step sql pat t st = advance pat t ?st"
        using True tm m n sub by (simp add: search_step_def block_at_def is_terminator_def)
      from vo obtain t1 where t1: "t1 \<in> set toks" "tok_end t1 = varStart st"
        "tok_text t1 = blk_text (pat ! (matchCount st - 1))"
        and le: "varStart st \<le> tok_start t" by (auto simp: var_ok_def)
      have "t \<in> set toks" using cur by (simp add: cur_ok_def)
      with t1 le tm True p n have "capture_of pat toks sql (blk_text (pat ! matchCount st), ?v)"
        unfolding capture_of_def
        by (intro bexI[of _ "matchCount st"] conjI bexI[of _ t1] bexI[of _ t]) auto
      then have co': "captures_ok pat toks sql (variableToValue (matchedPattern ?st))"
        using co by (simp add: captures_ok_put)
      have so': "start_ok toks (t # rest) (matchedPattern ?st)"
        using so by (simp add: start_ok_def)
      have tx: "tok_text t = blk_text (pat ! (matchCount ?st - 1))" using tm by simp
      from advance_inv[OF cur _ _ tx so' co'] n step show ?thesis by simp
    next
      case False
      let ?st = "st\<lparr>nestStack := nest_track (tok_text t) (nestStack st)\<rparr>"
      from False have "search_step sql pat t st = Inr (Continue ?st)"
        using True m n by (auto simp: search_step_def block_at_def is_terminator_def)
      moreover have "search_inv sql pat toks rest ?st"
        using m co True p var_ok_rest[OF vo] start_ok_rest[OF so]
        by (simp add: search_inv_def)
      ultimately show ?thesis by blast
    qed
  next
    case False
    show ?thesis
    proof (cases "tok_text t = blk_text (pat ! matchCount st)")
      case tm: True
      let ?st = "st\<lparr>matchedPattern :=
                     (if matchCount st = 0
                      then (matchedPattern st)\<lparr>mp_start := Some (tok_start t)\<rparr>
                      else matchedPattern st),
                  matchCount := matchCount st + 1\<rparr>"
      have step: "search_step sql pat t st = advance pat t ?st"
        using False tm m by (simp add: search_step_def block_at_def)
      have co': "captures_ok pat toks sql (variableToValue (matchedPattern ?st))"
        using co by simp
      have so': "start_ok toks (t # rest) (matchedPattern ?st)"
      proof (cases "matchCount st = 0")
        case True
        then show ?thesis using cur
          by (auto simp: start_ok_def cur_ok_def list_all_iff)
      next
        case False
        then show ?thesis using inv by (simp add: search_inv_def)
      qed
      have tx: "tok_text t = blk_text (pat ! (matchCount ?st - 1))" using tm by simp
      from advance_inv[OF cur _ _ tx so' co'] m step show ?thesis by simp
    next
      case f: False
      then have "search_step sql pat t st = Inr (Continue (st\<lparr>matchCount := 0\<rparr>))"
        using False m by (simp add: search_step_def block_at_def)
      moreover have "search_inv sql pat toks rest (st\<lparr>matchCount := 0\<rparr>)"
        using compiled_first[OF c] co by (simp add: search_inv_def)
      ultimately show ?thesis by blast
    qed
  qed
qed

lemma search_loop_inv:
  assumes c: "compiled pat"
    and toks: "list_all (\<lambda>t. tok_start t < tok_end t \<and> tok_end t \<le> length sql) toks"
  shows "set rest \<subseteq> set toks \<Longrightarrow> tokens_sorted rest \<Longrightarrow> search_inv sql pat toks rest st
    \<Longrightarrow> \<exists>m. search_loop sql pat rest st = Inr m \<and> (mp_start m = None \<or> result_ok pat toks sql m)"
proof (induction rest arbitrary: st)
  case Nil
  then show ?case by simp
next
  case (Cons t rest)
  have cur: "cur_ok toks sql t rest"
    using Cons.prems(1,2) toks by (auto simp: cur_ok_def list_all_iff tokens_sorted_def)
  from Cons.prems have r: "set rest \<subseteq> set toks" "tokens_sorted rest"
    by (auto simp: tokens_sorted_def)
  from search_step_inv[OF c cur Cons.prems(3)] show ?case
  proof
    assume "\<exists>m. search_step sql pat t st = Inr (Return m) \<and> result_ok pat toks sql m"
    then show ?thesis by auto
  next
    assume "\<exists>st'. search_step sql pat t st = Inr (Continue st') \<and> search_inv sql pat toks rest st'"
    then obtain st' where s: "search_step sql pat t st = Inr (Continue st')"
      and i: "search_inv sql pat toks rest st'" by blast
    from Cons.IH[OF r i] s show ?thesis by simp
  qed
qed

lemma length_toLowerCase: "length (toLowerCase s) = length s"
  by (simp add: toLowerCase_def)

lemma search_result:
  assumes c: "compiled pat" and tk: "tokenize (toLowerCase sql) = Inr toks"
  shows "\<exists>m. search sql pat = Inr m \<and> (mp_start m = None \<or> result_ok pat toks sql m)"
proof -
  from tokenize_inv[OF tk] have ti: "toks_inv (toLowerCase sql) (length sql) toks"
    by (simp add: length_toLowerCase)
  then have a: "list_all (\<lambda>t. tok_start t < tok_end t \<and> tok_end t \<le> length sql) toks"
    by (auto simp: toks_inv_def list_all_iff token_ok_def length_toLowerCase)
  have s: "tokens_sorted toks" using ti by (simp add: toks_inv_def)
  have i: "search_inv sql pat toks toks init_search"
    using compiled_first[OF c] by (simp add: search_inv_def init_search_def captures_ok_def)
  from search_loop_inv[OF c a _ s i] tk show ?thesis by (simp add: search_def)
qed

subsection \<open>Subjects that differ only in letter case\<close>

lemma bind_rel_put:
  "bind_rel m m' \<Longrightarrow> same_lower v v' \<Longrightarrow> bind_rel (map_put k v m) (map_put k v' m')"
  unfolding bind_rel_def
  by (induction m m' rule: list_all2_induct) auto

lemma substr_rel:
  assumes "toLowerCase sql = toLowerCase sql'"
  shows "rel_sum (=) same_lower (substr sql i n) (substr sql' i n)"
proof -
  from assms have "length sql = length sql'"
    unfolding toLowerCase_def by (rule map_eq_imp_length_eq)
  moreover have "toLowerCase (take n (drop i sql)) = toLowerCase (take n (drop i sql'))"
    using assms unfolding toLowerCase_def by (simp add: take_map[symmetric] drop_map[symmetric])
  ultimately show ?thesis by (simp add: substr_def same_lower_def)
qed

lemma advance_rel:
  assumes "st_rel st st'"
  shows "rel_sum (=) step_rel (advance pat t st) (advance pat t st')"
  using assms unfolding advance_def
  by (auto simp: st_rel_def mp_rel_def split: sum.splits)

lemma search_step_rel:
  assumes lo: "toLowerCase sql = toLowerCase sql'" and r: "st_rel st st'"
  shows "rel_sum (=) step_rel (search_step sql pat t st) (search_step sql' pat t st')"
proof -
  from r have eq: "matchCount st' = matchCount st" "varStart st' = varStart st"
    "nestStack st' = nestStack st" and mr: "mp_rel (matchedPattern st) (matchedPattern st')"
    by (simp_all add: st_rel_def)
  have tmeq: "is_terminator pat t st' = is_terminator pat t st"
    by (simp add: is_terminator_def eq)
  show ?thesis
  proof (cases "block_at pat (matchCount st)")
    case (Inl e)
    then show ?thesis by (simp add: search_step_def eq)
  next
    case (Inr b)
    show ?thesis
    proof (cases "isVariable b")
      case True
      show ?thesis
      proof (cases "is_terminator pat t st")
        case (Inl e)
        then show ?thesis using Inr True tmeq by (simp add: search_step_def eq)
      next
        case tr: (Inr tm)
        show ?thesis
        proof (cases tm)
          case True2: True
          let ?n = "size_sub (tok_start t) (varStart st)"
          have sr: "rel_sum (=) same_lower (substr sql (varStart st) ?n) (substr sql' (varStart st) ?n)"
            by (rule substr_rel[OF lo])
          show ?thesis
          proof (cases "substr sql (varStart st) ?n")
            case (Inl e)
            with sr have "substr sql' (varStart st) ?n = Inl e"
              by (cases "substr sql' (varStart st) ?n") simp_all
            with Inl show ?thesis using Inr True tr True2 tmeq by (simp add: search_step_def eq)
          next
            case v: (Inr v)
            with sr obtain v' where v': "substr sql' (varStart st) ?n = Inr v'" "same_lower v v'"
              by (cases "substr sql' (varStart st) ?n") simp_all
            have "st_rel
               (st\<lparr>matchedPattern := (matchedPattern st)
                     \<lparr>variableToValue := map_put (blk_text b) v (variableToValue (matchedPattern st))\<rparr>,
                   matchCount := matchCount st + 2\<rparr>)
               (st'\<lparr>matchedPattern := (matchedPattern st')
                     \<lparr>variableToValue := map_put (blk_text b) v' (variableToValue (matchedPattern st'))\<rparr>,
                   matchCount := matchCount st + 2\<rparr>)"
              using r v'(2) by (simp add: st_rel_def mp_rel_def bind_rel_put)
            from advance_rel[OF this, of pat t] show ?thesis
              using Inr True tr True2 tmeq v v'(1)
              by (simp add: search_step_def eq)
          qed
        next
          case False
          then show ?thesis using Inr True tr tmeq r
            by (simp add: search_step_def eq st_rel_def)
        qed
      qed
    next
      case False
      show ?thesis
      proof (cases "tok_text t = blk_text b")
        case True
        have "st_rel
            (st\<lparr>matchedPattern :=
                     (if matchCount st = 0
                      then (matchedPattern st)\<lparr>mp_start := Some (tok_start t)\<rparr>
                      else matchedPattern st),
                  matchCount := matchCount st + 1\<rparr>)
            (st'\<lparr>matchedPattern :=
                     (if matchCount st = 0
                      then (matchedPattern st')\<lparr>mp_start := Some (tok_start t)\<rparr>
                      else matchedPattern st'),
                  matchCount := matchCount st + 1\<rparr>)"
          using r by (simp add: st_rel_def mp_rel_def)
        from advance_rel[OF this, of pat t] show ?thesis
          using Inr False True by (simp add: search_step_def eq)
      next
        case f: False
        then show ?thesis using Inr False r by (simp add: search_step_def eq st_rel_def)
      qed
    qed
  qed
qed

lemma search_loop_rel:
  assumes lo: "toLowerCase sql = toLowerCase sql'"
  shows "st_rel st st' \<Longrightarrow>
    rel_sum (=) mp_rel (search_loop sql pat toks st) (search_loop sql' pat toks st')"
proof (induction toks arbitrary: st st')
  case Nil
  then show ?case by (simp add: st_rel_def mp_rel_def)
next
  case (Cons t toks)
  have sr: "rel_sum (=) step_rel (search_step sql pat t st) (search_step sql' pat t st')"
    by (rule search_step_rel[OF lo Cons.prems])
  show ?case
  proof (cases "search_step sql pat t st")
    case (Inl e)
    with sr have "search_step sql' pat t st' = Inl e"
      by (cases "search_step sql' pat t st'") simp_all
    with Inl show ?thesis by simp
  next
    case (Inr a)
    with sr obtain b where b: "search_step sql' pat t st' = Inr b" "step_rel a b"
      by (cases "search_step sql' pat t st'") simp_all
    with Inr show ?thesis using Cons.IH
      by (cases a; cases b) simp_all
  qed
qed

lemma search_rel:
  assumes lo: "toLowerCase sql = toLowerCase sql'"
  shows "rel_sum (=) mp_rel (search sql pat) (search sql' pat)"
proof (cases "tokenize (toLowerCase sql)")
  case (Inl e)
  then show ?thesis using lo by (simp add: search_def)
next
  case (Inr toks)
  have "st_rel init_search init_search"
    by (simp add: st_rel_def mp_rel_def bind_rel_def init_search_def)
  from search_loop_rel[OF lo this, of pat toks] Inr lo show ?thesis
    by (simp add: search_def)
qed

subsection \<open>The replace loop\<close>

lemma replace_loop_no_match_aux:
  assumes "replace_loop result pat repl m = Some y"
  shows "y = Inr r \<longrightarrow> search result pat = Inr m \<longrightarrow> no_match r pat"
proof (induction rule: replace_loop.raw_induct[OF _ assms])
  case (1 loop result pat repl m y)
  show ?case
  proof (intro impI)
    assume y: "y = Inr r" and sr: "search result pat = Inr m"
    show "no_match r pat"
    proof (cases "mp_start m")
      case None
      with "1"(2) y sr show ?thesis by (simp add: no_match_def)
    next
      case (Some s)
      with "1"(2) y obtain result' m' where
        "search result' pat = Inr m'" "loop result' pat repl m' = Some (Inr r)"
        by (auto split: sum.splits)
      with "1"(1) show ?thesis by blast
    qed
  qed
qed

lemma replace_loop_no_match:
  assumes "replace_loop result pat repl m = Some (Inr r)"
    and "search result pat = Inr m"
  shows "no_match r pat"
  using replace_loop_no_match_aux[OF assms(1), of r] assms(2) by simp

lemma searchAndReplace_no_match:
  assumes "searchAndReplace sql pat repl = Some (Inr r)"
  shows "no_match r pat"
  using assms replace_loop_no_match
  by (auto simp: searchAndReplace_def split: sum.splits)

lemma searchAndReplace_fixed:
  assumes "no_match r pat"
  shows "searchAndReplace r pat repl = Some (Inr r)"
  using assms
  by (auto simp: searchAndReplace_def no_match_def replace_loop.simps split: sum.splits)

lemma translateSql_fixed:
  "list_all (rule_inert r) rules \<Longrightarrow> translateSql r rules = Some (Inr r)"
  by (induction rules) (auto simp: rule_inert_def searchAndReplace_fixed split: sum.splits)

subsection \<open>The order of substitutions\<close>

lemma replaceAll_Nil: "replaceAll [] k v = []"
  by (simp add: replaceAll.simps)

lemma replaceAll_skip:
  "k \<noteq> [] \<Longrightarrow> \<not> prefix k (c # cs) \<Longrightarrow> replaceAll (c # cs) k v = c # replaceAll cs k v"
  by (simp add: replaceAll.simps[of "c # cs"])

lemma replaceAll_hit:
  assumes "k \<noteq> []"
  shows "replaceAll (k @ rest) k v = v @ replaceAll rest k v"
proof -
  have "prefix k (k @ rest)" by simp
  moreover have "k @ rest \<noteq> []" using assms by simp
  ultimately show ?thesis using assms by (subst replaceAll.simps) simp
qed

lemma replaceAll_pass:
  assumes "k \<noteq> []" "hd k = CHR ''@''" "CHR ''@'' \<notin> set u"
  shows "replaceAll (u @ x) k v = u @ replaceAll x k v"
  using assms(3)
proof (induction u)
  case Nil
  then show ?case by simp
next
  case (Cons c u)
  then have "\<not> prefix k (c # u @ x)"
    using assms(1,2) by (cases k) auto
  with Cons assms(1) show ?case by (simp add: replaceAll_skip)
qed

lemma key_ok_split: "key_ok k \<Longrightarrow> k = CHR ''@'' # tl k \<and> CHR ''@'' \<notin> set (tl k)"
  by (cases k) (simp_all add: key_ok_def)

lemma replaceAll_other_key:
  assumes k: "key_ok k" and k1: "key_ok k1" and np: "\<not> prefix k1 k" "\<not> prefix k k1"
  shows "replaceAll (k @ rest) k1 v1 = k @ replaceAll rest k1 v1"
proof -
  from key_ok_split[OF k] obtain k' where k': "k = CHR ''@'' # k'" "CHR ''@'' \<notin> set k'"
    by blast
  from k1 have k1ne: "k1 \<noteq> []" "hd k1 = CHR ''@''" by (simp_all add: key_ok_def)
  have "\<not> prefix k1 (k @ rest)"
  proof
    assume "prefix k1 (k @ rest)"
    moreover have "prefix k (k @ rest)" by simp
    ultimately have "prefix k1 k \<or> prefix k k1" by (rule prefix_same_cases)
    with np show False by blast
  qed
  then have "replaceAll (k @ rest) k1 v1 = CHR ''@'' # replaceAll (k' @ rest) k1 v1"
    using k1ne(1) k'(1) by (simp add: replaceAll_skip)
  also have "replaceAll (k' @ rest) k1 v1 = k' @ replaceAll rest k1 v1"
    using k1ne k'(2) by (rule replaceAll_pass)
  finally show ?thesis using k'(1) by simp
qed

lemma covered_pass: "CHR ''@'' \<notin> set u \<Longrightarrow> covered ks (u @ x) = covered ks x"
  by (induction u) auto

lemma covered_key:
  assumes "key_ok k" "k \<in> set ks" "covered ks x"
  shows "covered ks (k @ x)"
proof -
  from key_ok_split[OF assms(1)] obtain k' where k': "k = CHR ''@'' # k'" "CHR ''@'' \<notin> set k'"
    by blast
  have "list_ex (\<lambda>q. prefix q (k @ x)) ks"
    using assms(2) unfolding list_ex_iff by (intro bexI[of _ k]) simp_all
  then show ?thesis using k' assms(3) by (simp add: covered_pass)
qed

lemma covered_drop: "covered ks x \<Longrightarrow> covered ks (drop n x)"
proof (induction x arbitrary: n)
  case Nil
  then show ?case by simp
next
  case (Cons c x)
  show ?case
  proof (cases n)
    case 0
    then show ?thesis using Cons.prems by (simp del: covered.simps)
  next
    case (Suc j)
    from Cons.prems have "covered ks x" by simp
    then show ?thesis using Suc Cons.IH by simp
  qed
qed

lemma covered_append: "covered ks (k @ x) \<Longrightarrow> covered ks x"
  using covered_drop[of ks "k @ x" "length k"] by simp

lemma covered_at:
  "covered ks (CHR ''@'' # cs) \<Longrightarrow> \<exists>k \<in> set ks. prefix k (CHR ''@'' # cs)"
  by (simp add: list_ex_iff)

lemma keys_ok_key: "keys_ok ks \<Longrightarrow> k \<in> set ks \<Longrightarrow> key_ok k"
  by (simp add: keys_ok_def list_all_iff)

lemma keys_ok_no_prefix:
  "keys_ok ks \<Longrightarrow> k \<in> set ks \<Longrightarrow> k' \<in> set ks \<Longrightarrow> k \<noteq> k' \<Longrightarrow> \<not> prefix k k'"
  by (auto simp: keys_ok_def)

text \<open>The shape of a covered string at a position: either it does not start with the
  sign of a key, or it starts with one of the keys.\<close>

lemma covered_cases:
  assumes "covered ks z"
  obtains (empty) "z = []"
  | (plain) c cs where "z = c # cs" "c \<noteq> CHR ''@''" "covered ks cs"
  | (key) k rest where "z = k @ rest" "k \<in> set ks" "covered ks rest"
proof (cases z)
  case Nil
  then show ?thesis by (rule empty)
next
  case (Cons c cs)
  show ?thesis
  proof (cases "c = CHR ''@''")
    case False
    with Cons assms show ?thesis by (intro plain[of c cs]) simp_all
  next
    case True
    with Cons assms obtain k where k: "k \<in> set ks" "prefix k z"
      using covered_at[of ks cs] by auto
    then obtain rest where r: "z = k @ rest" by (auto elim: prefixE)
    with assms have "covered ks rest" by (auto dest: covered_append)
    with k r show ?thesis by (intro key[of k rest]) simp_all
  qed
qed

lemma replaceAll_plain:
  assumes "key_ok k" "c \<noteq> CHR ''@''"
  shows "replaceAll (c # cs) k v = c # replaceAll cs k v"
proof -
  from assms have "k \<noteq> []" "\<not> prefix k (c # cs)"
    by (cases k; simp add: key_ok_def)+
  then show ?thesis by (rule replaceAll_skip)
qed

lemma replaceAll_covered:
  assumes ko: "keys_ok ks" and k1: "k1 \<in> set ks" and v1: "CHR ''@'' \<notin> set v1"
  shows "covered ks z \<Longrightarrow> covered ks (replaceAll z k1 v1)"
proof (induction z rule: length_induct)
  case (1 z)
  note kk1 = keys_ok_key[OF ko k1]
  from "1.prems" show ?case
  proof (cases rule: covered_cases)
    case empty
    then show ?thesis by (simp add: replaceAll_Nil)
  next
    case (plain c cs)
    with "1.IH" have "covered ks (replaceAll cs k1 v1)" by simp
    with plain show ?thesis by (simp add: replaceAll_plain[OF kk1])
  next
    case (key k rest)
    note kk = keys_ok_key[OF ko key(2)]
    then have "k \<noteq> []" by (simp add: key_ok_def)
    with key "1.IH" have ih: "covered ks (replaceAll rest k1 v1)" by simp
    show ?thesis
    proof (cases "k = k1")
      case True
      with key(1) kk have "replaceAll z k1 v1 = v1 @ replaceAll rest k1 v1"
        by (simp add: replaceAll_hit key_ok_def)
      with ih v1 show ?thesis by (simp add: covered_pass)
    next
      case False
      then have "\<not> prefix k1 k" "\<not> prefix k k1"
        using keys_ok_no_prefix[OF ko] k1 key(2) by auto
      with key(1) have "replaceAll z k1 v1 = k @ replaceAll rest k1 v1"
        by (simp add: replaceAll_other_key[OF kk kk1])
      with ih show ?thesis by (simp add: covered_key[OF kk key(2)])
    qed
  qed
qed

lemma replaceAll_commute:
  assumes ko: "keys_ok ks" and k1: "k1 \<in> set ks" and k2: "k2 \<in> set ks" and ne: "k1 \<noteq> k2"
    and v1: "CHR ''@'' \<notin> set v1" and v2: "CHR ''@'' \<notin> set v2"
  shows "covered ks z \<Longrightarrow>
    replaceAll (replaceAll z k1 v1) k2 v2 = replaceAll (replaceAll z k2 v2) k1 v1"
proof (induction z rule: length_induct)
  case (1 z)
  note kk1 = keys_ok_key[OF ko k1] and kk2 = keys_ok_key[OF ko k2]
  have ne1: "k1 \<noteq> []" "hd k1 = CHR ''@''" and ne2: "k2 \<noteq> []" "hd k2 = CHR ''@''"
    using kk1 kk2 by (simp_all add: key_ok_def)
  have np12: "\<not> prefix k1 k2" "\<not> prefix k2 k1"
    using keys_ok_no_prefix[OF ko] k1 k2 ne by auto
  from "1.prems" show ?case
  proof (cases rule: covered_cases)
    case empty
    then show ?thesis by (simp add: replaceAll_Nil)
  next
    case (plain c cs)
    with "1.IH" have "replaceAll (replaceAll cs k1 v1) k2 v2 = replaceAll (replaceAll cs k2 v2) k1 v1"
      by simp
    with plain show ?thesis
      by (simp add: replaceAll_plain[OF kk1] replaceAll_plain[OF kk2])
  next
    case (key k rest)
    note kk = keys_ok_key[OF ko key(2)]
    then have "k \<noteq> []" by (simp add: key_ok_def)
    with key "1.IH"
    have ih: "replaceAll (replaceAll rest k1 v1) k2 v2 = replaceAll (replaceAll rest k2 v2) k1 v1"
      by simp
    consider (first) "k = k1" | (second) "k = k2" | (other) "k \<noteq> k1" "k \<noteq> k2" by blast
    then show ?thesis
    proof cases
      case first
      have "replaceAll (replaceAll z k1 v1) k2 v2 = v1 @ replaceAll (replaceAll rest k1 v1) k2 v2"
        using key(1) first ne1 by (simp add: replaceAll_hit replaceAll_pass[OF ne2 v1])
      moreover have "replaceAll (replaceAll z k2 v2) k1 v1 =
          v1 @ replaceAll (replaceAll rest k2 v2) k1 v1"
        using key(1) first ne1 np12
        by (simp add: replaceAll_other_key[OF kk1 kk2] replaceAll_hit)
      ultimately show ?thesis using ih by simp
    next
      case second
      have "replaceAll (replaceAll z k2 v2) k1 v1 = v2 @ replaceAll (replaceAll rest k2 v2) k1 v1"
        using key(1) second ne2 by (simp add: replaceAll_hit replaceAll_pass[OF ne1 v2])
      moreover have "replaceAll (replaceAll z k1 v1) k2 v2 =
          v2 @ replaceAll (replaceAll rest k1 v1) k2 v2"
        using key(1) second ne2 np12
        by (simp add: replaceAll_other_key[OF kk2 kk1] replaceAll_hit)
      ultimately show ?thesis using ih by simp
    next
      case other
      then have np: "\<not> prefix k1 k" "\<not> prefix k k1" "\<not> prefix k2 k" "\<not> prefix k k2"
        using keys_ok_no_prefix[OF ko] k1 k2 key(2) by auto
      have "replaceAll (replaceAll z k1 v1) k2 v2 = k @ replaceAll (replaceAll rest k1 v1) k2 v2"
        using key(1) np by (simp add: replaceAll_other_key[OF kk kk1] replaceAll_other_key[OF kk kk2])
      moreover have "replaceAll (replaceAll z k2 v2) k1 v1 =
          k @ replaceAll (replaceAll rest k2 v2) k1 v1"
        using key(1) np by (simp add: replaceAll_other_key[OF kk kk1] replaceAll_other_key[OF kk kk2])
      ultimately show ?thesis using ih by simp
    qed
  qed
qed

lemma keys_ok_tail: "keys_ok (k # ks) \<Longrightarrow> keys_ok ks"
  by (simp add: keys_ok_def)

lemma replaceAll_covered_rest:
  assumes ko: "keys_ok (k1 # ks)" and v1: "CHR ''@'' \<notin> set v1"
  shows "covered (k1 # ks) z \<Longrightarrow> covered ks (replaceAll z k1 v1)"
proof (induction z rule: length_induct)
  case (1 z)
  have kk1: "key_ok k1" using keys_ok_key[OF ko, of k1] by simp
  from "1.prems" show ?case
  proof (cases rule: covered_cases)
    case empty
    then show ?thesis by (simp add: replaceAll_Nil)
  next
    case (plain c cs)
    with "1.IH" have "covered ks (replaceAll cs k1 v1)" by simp
    with plain show ?thesis by (simp add: replaceAll_plain[OF kk1])
  next
    case (key k rest)
    note kk = keys_ok_key[OF ko key(2)]
    then have "k \<noteq> []" by (simp add: key_ok_def)
    with key "1.IH" have ih: "covered ks (replaceAll rest k1 v1)" by simp
    show ?thesis
    proof (cases "k = k1")
      case True
      with key(1) kk have "replaceAll z k1 v1 = v1 @ replaceAll rest k1 v1"
        by (simp add: replaceAll_hit key_ok_def)
      with ih v1 show ?thesis by (simp add: covered_pass)
    next
      case False
      then have "\<not> prefix k1 k" "\<not> prefix k k1"
        using keys_ok_no_prefix[OF ko, of k1 k] keys_ok_no_prefix[OF ko, of k k1] key(2)
        by auto
      with key(1) have "replaceAll z k1 v1 = k @ replaceAll rest k1 v1"
        by (simp add: replaceAll_other_key[OF kk kk1])
      moreover have "k \<in> set ks" using key(2) False by simp
      ultimately show ?thesis using ih by (simp add: covered_key[OF kk])
    qed
  qed
qed

lemma covered_no_keys: "covered [] z \<Longrightarrow> CHR ''@'' \<notin> set z"
  by (induction z) (auto split: if_splits)

lemma substitute_all_replaced:
  "bindings_ok bs \<Longrightarrow> covered (map fst bs) t \<Longrightarrow> CHR ''@'' \<notin> set (substitute bs t)"
proof (induction bs arbitrary: t)
  case Nil
  then show ?case by (simp add: substitute_def covered_no_keys)
next
  case (Cons kv bs)
  from Cons.prems(1) have ko: "keys_ok (fst kv # map fst bs)"
    and v: "CHR ''@'' \<notin> set (snd kv)" and ok: "bindings_ok bs"
    by (auto simp: bindings_ok_def dest: keys_ok_tail)
  from replaceAll_covered_rest[OF ko v] Cons.prems(2)
  have "covered (map fst bs) (replaceAll t (fst kv) (snd kv))" by simp
  from Cons.IH[OF ok this] show ?case
    by (simp add: substitute_def case_prod_unfold)
qed

lemma substitute_permuted:
  assumes ok: "bindings_ok bs" and cov: "covered (map fst bs) t" and perm: "mset bs' = mset bs"
  shows "substitute bs' t = substitute bs t"
proof -
  let ?f = "\<lambda>kv r. replaceAll r (fst kv) (snd kv)"
  let ?ks = "map fst bs"
  from ok have ko: "keys_ok ?ks" and vs: "\<And>kv. kv \<in> set bs \<Longrightarrow> CHR ''@'' \<notin> set (snd kv)"
    by (auto simp: bindings_ok_def list_all_iff)
  from ko have d: "distinct ?ks" by (simp add: keys_ok_def)
  have keep: "covered ?ks (?f x z)" if "x \<in> set bs" "covered ?ks z" for x z
    using that vs[of x] by (intro replaceAll_covered[OF ko]) auto
  have comm: "?f x (?f y z) = ?f y (?f x z)" if "x \<in> set bs" "y \<in> set bs" "covered ?ks z" for x y z
  proof (cases "x = y")
    case True
    then show ?thesis by simp
  next
    case False
    with d that(1,2) have "fst x \<noteq> fst y"
      by (metis distinct_map inj_onD)
    then show ?thesis
      using that vs[of x] vs[of y] by (intro replaceAll_commute[OF ko]) auto
  qed
  have "fold ?f bs t = fold ?f bs' t"
  proof (rule fold_permuted_eq[where f = ?f and P = "covered ?ks"])
    show "mset bs = mset bs'" using perm by simp
    show "covered ?ks t" by (rule cov)
    show "covered ?ks (?f x z)" if "x \<in> set bs" "covered ?ks z" for x z
      using that by (rule keep)
    show "?f x (?f y z) = ?f y (?f x z)" if "x \<in> set bs" "y \<in> set bs" "covered ?ks z" for x y z
      using that by (rule comm)
  qed
  moreover have "substitute m t = fold ?f m t" for m
    by (simp add: substitute_def case_prod_unfold)
  ultimately show ?thesis by simp
qed


section \<open>The claims\<close>

text \<open>
  C1. For every subject and every compiled pattern: matching is case-insensitive (a
  subject that differs only in letter case gives the same offsets and, up to case, the
  same bindings); on a successful match every bound value is the original-case slice of
  the subject from the end of the token that matched the block before the variable to
  the start of the token that matched the block after it; and the returned start and
  end are token offsets inside the original subject.
\<close>

theorem search_case_insensitive_original_slices:
  assumes "parseSearchPattern p = Inr pat"
    and "search sql pat = Inr m" and "mp_start m = Some s"
    and "toLowerCase sql' = toLowerCase sql"
  shows "(\<exists>toks. tokenize (toLowerCase sql) = Inr toks \<and>
            s < mp_end m \<and> mp_end m \<le> length sql \<and>
            (\<exists>t \<in> set toks. tok_start t = s) \<and> (\<exists>t \<in> set toks. tok_end t = mp_end m) \<and>
            list_all (capture_of pat toks sql) (variableToValue m)) \<and>
         (\<exists>m'. search sql' pat = Inr m' \<and> mp_start m' = Some s \<and> mp_end m' = mp_end m \<and>
            map fst (variableToValue m') = map fst (variableToValue m) \<and>
            map (toLowerCase \<circ> snd) (variableToValue m') =
              map (toLowerCase \<circ> snd) (variableToValue m))"
proof -
  have c: "compiled pat" using assms(1) by (rule parseSearchPattern_compiled)
  from assms(2) obtain toks where tk: "tokenize (toLowerCase sql) = Inr toks"
    by (auto simp: search_def split: sum.splits)
  from search_result[OF c tk] assms(2,3) have "result_ok pat toks sql m" by auto
  with assms(3) tk have first: "\<exists>toks. tokenize (toLowerCase sql) = Inr toks \<and>
            s < mp_end m \<and> mp_end m \<le> length sql \<and>
            (\<exists>t \<in> set toks. tok_start t = s) \<and> (\<exists>t \<in> set toks. tok_end t = mp_end m) \<and>
            list_all (capture_of pat toks sql) (variableToValue m)"
    by (auto simp: result_ok_def captures_ok_def)
  have "rel_sum (=) mp_rel (search sql pat) (search sql' pat)"
    using assms(4) by (intro search_rel) simp
  with assms(2) obtain m' where m': "search sql' pat = Inr m'" "mp_rel m m'"
    by (cases "search sql' pat") simp_all
  have "map fst (variableToValue m') = map fst (variableToValue m) \<and>
        map (toLowerCase \<circ> snd) (variableToValue m') =
          map (toLowerCase \<circ> snd) (variableToValue m)"
    using m'(2) unfolding mp_rel_def bind_rel_def same_lower_def
    by (auto simp: list_all2_conv_all_nth intro!: nth_equalityI)
  with m' assms(3) have "\<exists>m'. search sql' pat = Inr m' \<and> mp_start m' = Some s \<and>
      mp_end m' = mp_end m \<and>
      map fst (variableToValue m') = map fst (variableToValue m) \<and>
      map (toLowerCase \<circ> snd) (variableToValue m') =
        map (toLowerCase \<circ> snd) (variableToValue m)"
    by (auto simp: mp_rel_def)
  with first show ?thesis by blast
qed

theorem search_case_insensitive_original_slices_witness:
  "parseSearchPattern ''set @v to'' =
     Inr [\<lparr>blk_text = ''set'', isVariable = False\<rparr>, \<lparr>blk_text = ''@v'', isVariable = True\<rparr>,
          \<lparr>blk_text = ''to'', isVariable = False\<rparr>] \<and>
   search ''SET MaxRows TO''
     [\<lparr>blk_text = ''set'', isVariable = False\<rparr>, \<lparr>blk_text = ''@v'', isVariable = True\<rparr>,
      \<lparr>blk_text = ''to'', isVariable = False\<rparr>] =
     Inr \<lparr>mp_start = Some 0, mp_end = 14, variableToValue = [(''@v'', '' MaxRows '')]\<rparr> \<and>
   toLowerCase ''set MAXROWS to'' = toLowerCase ''SET MaxRows TO'' \<and>
   search ''set MAXROWS to''
     [\<lparr>blk_text = ''set'', isVariable = False\<rparr>, \<lparr>blk_text = ''@v'', isVariable = True\<rparr>,
      \<lparr>blk_text = ''to'', isVariable = False\<rparr>] =
     Inr \<lparr>mp_start = Some 0, mp_end = 14, variableToValue = [(''@v'', '' MAXROWS '')]\<rparr> \<and>
   (\<exists>toks. tokenize (toLowerCase ''SET MaxRows TO'') = Inr toks \<and>
      (\<exists>t \<in> set toks. tok_start t = 0) \<and> (\<exists>t \<in> set toks. tok_end t = 14) \<and>
      list_all (capture_of
        [\<lparr>blk_text = ''set'', isVariable = False\<rparr>, \<lparr>blk_text = ''@v'', isVariable = True\<rparr>,
         \<lparr>blk_text = ''to'', isVariable = False\<rparr>] toks ''SET MaxRows TO'')
        [(''@v'', '' MaxRows '')])"
proof -
  let ?pat = "[\<lparr>blk_text = ''set'', isVariable = False\<rparr>, \<lparr>blk_text = ''@v'', isVariable = True\<rparr>,
      \<lparr>blk_text = ''to'', isVariable = False\<rparr>]"
  let ?m = "\<lparr>mp_start = Some 0, mp_end = 14, variableToValue = [(''@v'', '' MaxRows '')]\<rparr>"
  have a: "parseSearchPattern ''set @v to'' = Inr ?pat" by code_simp
  have b: "search ''SET MaxRows TO'' ?pat = Inr ?m" by code_simp
  have c: "mp_start ?m = Some 0" by simp
  have d: "toLowerCase ''set MAXROWS to'' = toLowerCase ''SET MaxRows TO''" by code_simp
  have e: "search ''set MAXROWS to'' ?pat =
     Inr \<lparr>mp_start = Some 0, mp_end = 14, variableToValue = [(''@v'', '' MAXROWS '')]\<rparr>"
    by code_simp
  from search_case_insensitive_original_slices[OF a b c d]
  have "\<exists>toks. tokenize (toLowerCase ''SET MaxRows TO'') = Inr toks \<and>
      (\<exists>t \<in> set toks. tok_start t = 0) \<and> (\<exists>t \<in> set toks. tok_end t = 14) \<and>
      list_all (capture_of ?pat toks ''SET MaxRows TO'') [(''@v'', '' MaxRows '')]"
    by simp
  with a b d e show ?thesis by blast
qed

text \<open>
  C2. Compiling \<^verbatim>\<open>f(@x) end\<close> and searching \<^verbatim>\<open>f((1+2)) end\<close> succeeds and binds \<open>@x\<close>
  to \<^verbatim>\<open>(1+2)\<close>. The second and third conjunct are the two steps the claim describes: at
  the first \<open>)\<close> (offsets 6 to 7) the stack holds \<open>(\<close>, so the token is not tested as a
  terminator and only pops the stack; at the second \<open>)\<close> (offsets 7 to 8) the stack is
  empty and the capture ends. The last block \<open>end\<close> then completes the match.
\<close>

theorem search_parenthesis_transparency:
  "parseSearchPattern ''f(@x) end'' =
     Inr [\<lparr>blk_text = ''f'', isVariable = False\<rparr>, \<lparr>blk_text = ''('', isVariable = False\<rparr>,
          \<lparr>blk_text = ''@x'', isVariable = True\<rparr>, \<lparr>blk_text = '')'', isVariable = False\<rparr>,
          \<lparr>blk_text = ''end'', isVariable = False\<rparr>] \<and>
   search_step ''f((1+2)) end''
     [\<lparr>blk_text = ''f'', isVariable = False\<rparr>, \<lparr>blk_text = ''('', isVariable = False\<rparr>,
      \<lparr>blk_text = ''@x'', isVariable = True\<rparr>, \<lparr>blk_text = '')'', isVariable = False\<rparr>,
      \<lparr>blk_text = ''end'', isVariable = False\<rparr>]
     \<lparr>tok_start = 6, tok_end = 7, tok_text = '')''\<rparr>
     \<lparr>matchCount = 2, varStart = 2, nestStack = [''(''],
      matchedPattern = \<lparr>mp_start = Some 0, mp_end = 0, variableToValue = []\<rparr>\<rparr> =
     Inr (Continue
       \<lparr>matchCount = 2, varStart = 2, nestStack = [],
        matchedPattern = \<lparr>mp_start = Some 0, mp_end = 0, variableToValue = []\<rparr>\<rparr>) \<and>
   search_step ''f((1+2)) end''
     [\<lparr>blk_text = ''f'', isVariable = False\<rparr>, \<lparr>blk_text = ''('', isVariable = False\<rparr>,
      \<lparr>blk_text = ''@x'', isVariable = True\<rparr>, \<lparr>blk_text = '')'', isVariable = False\<rparr>,
      \<lparr>blk_text = ''end'', isVariable = False\<rparr>]
     \<lparr>tok_start = 7, tok_end = 8, tok_text = '')''\<rparr>
     \<lparr>matchCount = 2, varStart = 2, nestStack = [],
      matchedPattern = \<lparr>mp_start = Some 0, mp_end = 0, variableToValue = []\<rparr>\<rparr> =
     Inr (Continue
       \<lparr>matchCount = 4, varStart = 2, nestStack = [],
        matchedPattern =
          \<lparr>mp_start = Some 0, mp_end = 0, variableToValue = [(''@x'', ''(1+2)'')]\<rparr>\<rparr>) \<and>
   search ''f((1+2)) end''
     [\<lparr>blk_text = ''f'', isVariable = False\<rparr>, \<lparr>blk_text = ''('', isVariable = False\<rparr>,
      \<lparr>blk_text = ''@x'', isVariable = True\<rparr>, \<lparr>blk_text = '')'', isVariable = False\<rparr>,
      \<lparr>blk_text = ''end'', isVariable = False\<rparr>] =
     Inr \<lparr>mp_start = Some 0, mp_end = 12, variableToValue = [(''@x'', ''(1+2)'')]\<rparr>"
  by code_simp

text \<open>
  C3, as stated: the pattern \<^verbatim>\<open>select @cols from @tbl\<close> does not compile, because its
  last block is a variable (line 111), so there is no match to speak of; and the four
  blocks handed to \<open>search\<close> uncompiled read \<^verbatim>\<open>parsedPattern[4]\<close> past the end.
\<close>

theorem select_from_pattern_rejected:
  "parseSearchPattern ''select @cols from @tbl'' = Inl InvalidArgument \<and>
   search ''SELECT a, b FROM orders''
     [\<lparr>blk_text = ''select'', isVariable = False\<rparr>, \<lparr>blk_text = ''@cols'', isVariable = True\<rparr>,
      \<lparr>blk_text = ''from'', isVariable = False\<rparr>, \<lparr>blk_text = ''@tbl'', isVariable = True\<rparr>] =
     Inl IndexOutOfBounds"
  by code_simp

text \<open>
  C3, amended: with a closing literal the pattern compiles, \<^verbatim>\<open>select @cols from @tbl;\<close>
  matches \<^verbatim>\<open>SELECT a, b FROM orders;\<close> from offset 0 to 24, and the captures start right
  after the token that matched the preceding literal, so they keep the blank that
  follows it: \<open>@cols\<close> is \<^verbatim>\<open>" a, b "\<close> and \<open>@tbl\<close> is \<^verbatim>\<open>" orders"\<close>. The keywords of the
  subject are upper case and match the lower-case literals.
\<close>

theorem select_from_pattern_with_closing_literal:
  "parseSearchPattern ''select @cols from @tbl;'' =
     Inr [\<lparr>blk_text = ''select'', isVariable = False\<rparr>, \<lparr>blk_text = ''@cols'', isVariable = True\<rparr>,
          \<lparr>blk_text = ''from'', isVariable = False\<rparr>, \<lparr>blk_text = ''@tbl'', isVariable = True\<rparr>,
          \<lparr>blk_text = '';'', isVariable = False\<rparr>] \<and>
   search ''SELECT a, b FROM orders;''
     [\<lparr>blk_text = ''select'', isVariable = False\<rparr>, \<lparr>blk_text = ''@cols'', isVariable = True\<rparr>,
      \<lparr>blk_text = ''from'', isVariable = False\<rparr>, \<lparr>blk_text = ''@tbl'', isVariable = True\<rparr>,
      \<lparr>blk_text = '';'', isVariable = False\<rparr>] =
     Inr \<lparr>mp_start = Some 0, mp_end = 24,
          variableToValue = [(''@cols'', '' a, b ''), (''@tbl'', '' orders'')]\<rparr>"
  by code_simp

text \<open>
  C4, at the failing inputs. The empty pattern and a pattern of blanks or comments only
  give no blocks, and line 111 then reads \<^verbatim>\<open>blocks[0]\<close> of an empty vector: no
  \<^verbatim>\<open>invalid_argument\<close> is thrown. A pattern that ends in \<open>-\<close> or \<open>/\<close> fails in the
  tokenizer with \<^verbatim>\<open>out_of_range\<close> instead of compiling. The patterns \<^verbatim>\<open>@x = 1\<close> and
  \<^verbatim>\<open>@x\<close> are rejected as the claim says.
\<close>

theorem parseSearchPattern_empty_pattern:
  "parseSearchPattern '''' = Inl IndexOutOfBounds \<and>
   parseSearchPattern ''  '' = Inl IndexOutOfBounds \<and>
   parseSearchPattern ''/* none */'' = Inl IndexOutOfBounds \<and>
   parseSearchPattern ''a -'' = Inl OutOfRange \<and>
   parseSearchPattern ''@x = 1'' = Inl InvalidArgument \<and>
   parseSearchPattern ''@x'' = Inl InvalidArgument"
  by code_simp

text \<open>
  C5, at the failing inputs. A comment that is not closed before the end of the input is
  not discarded: the flush after the loop (lines 91 to 98) does not look at the comment
  flags and emits everything after the first character of the comment opener as one
  token. Line 62 also takes the \<open>*\<close> of the opener for the \<open>*\<close> of a closer, so \<^verbatim>\<open>/*/\<close> is
  a whole comment and the text up to the real \<^verbatim>\<open>*/\<close> is tokenized. A comment that is closed
  otherwise yields no token.
\<close>

theorem tokenize_unterminated_comment_token:
  "tokenize ''a --x'' =
     Inr [\<lparr>tok_start = 0, tok_end = 1, tok_text = ''a''\<rparr>,
          \<lparr>tok_start = 3, tok_end = 5, tok_text = ''-x''\<rparr>] \<and>
   tokenize ''a /* x'' =
     Inr [\<lparr>tok_start = 0, tok_end = 1, tok_text = ''a''\<rparr>,
          \<lparr>tok_start = 3, tok_end = 6, tok_text = ''* x''\<rparr>] \<and>
   tokenize ''/*/ x */ y'' =
     Inr [\<lparr>tok_start = 4, tok_end = 5, tok_text = ''x''\<rparr>,
          \<lparr>tok_start = 6, tok_end = 7, tok_text = ''*''\<rparr>,
          \<lparr>tok_start = 7, tok_end = 8, tok_text = ''/''\<rparr>,
          \<lparr>tok_start = 9, tok_end = 10, tok_text = ''y''\<rparr>] \<and>
   tokenize ''a -- c\<newline>b'' =
     Inr [\<lparr>tok_start = 0, tok_end = 1, tok_text = ''a''\<rparr>,
          \<lparr>tok_start = 7, tok_end = 8, tok_text = ''b''\<rparr>] \<and>
   tokenize ''a/* x */b'' =
     Inr [\<lparr>tok_start = 0, tok_end = 1, tok_text = ''a''\<rparr>,
          \<lparr>tok_start = 8, tok_end = 9, tok_text = ''b''\<rparr>]"
  by code_simp

text \<open>
  C6, at the failing inputs. When the last character is \<open>-\<close> or \<open>/\<close> and no comment is
  open, lines 75 and 77 test \<^verbatim>\<open>cursor < sql.length()\<close>, which always holds inside the
  loop, and then call \<^verbatim>\<open>sql.at(cursor + 1)\<close> one past the end: \<^verbatim>\<open>out_of_range\<close>.
\<close>

theorem tokenize_trailing_dash_or_slash:
  "tokenize ''-'' = Inl OutOfRange \<and> tokenize ''/'' = Inl OutOfRange \<and>
   tokenize ''a - b /'' = Inl OutOfRange \<and> tokenize ''x-'' = Inl OutOfRange"
  by code_simp

text \<open>
  C9. Every token that \<open>tokenize\<close> returns lies inside the input, is not empty, and its
  text is the substring of the input between its two offsets.
\<close>

theorem tokenize_offsets:
  assumes "tokenize s = Inr ts" and "t \<in> set ts"
  shows "tok_start t < tok_end t \<and> tok_end t \<le> length s \<and>
         tok_text t = take (tok_end t - tok_start t) (drop (tok_start t) s) \<and>
         substr s (tok_start t) (tok_end t - tok_start t) = Inr (tok_text t)"
  using tokenize_inv[OF assms(1)] assms(2)
  by (auto simp: toks_inv_def list_all_iff token_ok_def substr_def)

theorem tokenize_offsets_witness:
  "tokenize ''SELECT 1 -- comment\<newline>FROM t'' =
     Inr [\<lparr>tok_start = 0, tok_end = 6, tok_text = ''SELECT''\<rparr>,
          \<lparr>tok_start = 7, tok_end = 8, tok_text = ''1''\<rparr>,
          \<lparr>tok_start = 20, tok_end = 24, tok_text = ''FROM''\<rparr>,
          \<lparr>tok_start = 25, tok_end = 26, tok_text = ''t''\<rparr>] \<and>
   ''FROM'' = take (24 - 20) (drop 20 ''SELECT 1 -- comment\<newline>FROM t'') \<and>
   substr ''SELECT 1 -- comment\<newline>FROM t'' 20 (24 - 20) = Inr ''FROM''"
proof -
  let ?t = "\<lparr>tok_start = 20, tok_end = 24, tok_text = ''FROM''\<rparr>"
  have a: "tokenize ''SELECT 1 -- comment\<newline>FROM t'' =
     Inr [\<lparr>tok_start = 0, tok_end = 6, tok_text = ''SELECT''\<rparr>,
          \<lparr>tok_start = 7, tok_end = 8, tok_text = ''1''\<rparr>, ?t,
          \<lparr>tok_start = 25, tok_end = 26, tok_text = ''t''\<rparr>]"
    by code_simp
  have b: "?t \<in> set [\<lparr>tok_start = 0, tok_end = 6, tok_text = ''SELECT''\<rparr>,
          \<lparr>tok_start = 7, tok_end = 8, tok_text = ''1''\<rparr>, ?t,
          \<lparr>tok_start = 25, tok_end = 26, tok_text = ''t''\<rparr>]"
    by simp
  from tokenize_offsets[OF a b] a show ?thesis by simp
qed

text \<open>
  C10. For a pattern that \<open>parseSearchPattern\<close> returns, \<open>search\<close> never reads a block
  outside the pattern, whatever the subject: neither \<^verbatim>\<open>parsedPattern[matchCount]\<close> nor
  the terminator \<^verbatim>\<open>parsedPattern[matchCount + 1]\<close>. (Every block read of the model is
  \<open>block_at\<close>, which reports a read outside the vector as \<open>IndexOutOfBounds\<close>.) The
  witness is a pattern with two adjacent variable blocks.
\<close>

theorem search_pattern_reads_in_bounds:
  assumes "parseSearchPattern p = Inr pat"
  shows "search sql pat \<noteq> Inl IndexOutOfBounds"
proof -
  have c: "compiled pat" using assms by (rule parseSearchPattern_compiled)
  then have "matchCount init_search < length pat" by (simp add: init_search_def compiled_def)
  from search_loop_bounds[OF c this] show ?thesis
    unfolding search_def by (auto split: sum.splits dest: tokenize_error)
qed

theorem search_pattern_reads_in_bounds_witness:
  "parseSearchPattern ''a @x @y b'' =
     Inr [\<lparr>blk_text = ''a'', isVariable = False\<rparr>, \<lparr>blk_text = ''@x'', isVariable = True\<rparr>,
          \<lparr>blk_text = ''@y'', isVariable = True\<rparr>, \<lparr>blk_text = ''b'', isVariable = False\<rparr>] \<and>
   search ''a 1 @y b''
     [\<lparr>blk_text = ''a'', isVariable = False\<rparr>, \<lparr>blk_text = ''@x'', isVariable = True\<rparr>,
      \<lparr>blk_text = ''@y'', isVariable = True\<rparr>, \<lparr>blk_text = ''b'', isVariable = False\<rparr>] \<noteq>
     Inl IndexOutOfBounds"
proof -
  have a: "parseSearchPattern ''a @x @y b'' =
     Inr [\<lparr>blk_text = ''a'', isVariable = False\<rparr>, \<lparr>blk_text = ''@x'', isVariable = True\<rparr>,
          \<lparr>blk_text = ''@y'', isVariable = True\<rparr>, \<lparr>blk_text = ''b'', isVariable = False\<rparr>]"
    by code_simp
  from search_pattern_reads_in_bounds[OF a, of "''a 1 @y b''"] a show ?thesis by simp
qed

text \<open>
  C7, as stated: for the pattern \<^verbatim>\<open>x @a y @ab z\<close> and the subject \<^verbatim>\<open>x 1 y 2 z\<close> the match
  binds \<open>@a\<close> and \<open>@ab\<close>; on the template \<^verbatim>\<open>@ab\<close> the order of the map (first \<open>@a\<close>, then
  \<open>@ab\<close>) and the opposite order give different strings, because \<open>replaceAll\<close> replaces
  substrings and \<open>@a\<close> occurs inside \<open>@ab\<close>.
\<close>

theorem substitute_order_matters:
  "search ''x 1 y 2 z''
     [\<lparr>blk_text = ''x'', isVariable = False\<rparr>, \<lparr>blk_text = ''@a'', isVariable = True\<rparr>,
      \<lparr>blk_text = ''y'', isVariable = False\<rparr>, \<lparr>blk_text = ''@ab'', isVariable = True\<rparr>,
      \<lparr>blk_text = ''z'', isVariable = False\<rparr>] =
     Inr \<lparr>mp_start = Some 0, mp_end = 9,
          variableToValue = [(''@a'', '' 1 ''), (''@ab'', '' 2 '')]\<rparr> \<and>
   substitute [(''@a'', '' 1 ''), (''@ab'', '' 2 '')] ''@ab'' = '' 1 b'' \<and>
   substitute [(''@ab'', '' 2 ''), (''@a'', '' 1 '')] ''@ab'' = '' 2 ''"
  by code_simp

text \<open>
  C7, amended: \<open>substitute\<close> applies \<open>replaceAll\<close> once for every pair of the map, in the
  map's ascending key order. Substituting the pairs in any other order gives the same
  string when every variable name is an \<open>@\<close> followed by characters other than \<open>@\<close>, no
  name is a prefix of another, no bound value contains \<open>@\<close>, and every \<open>@\<close> of the template
  starts one of the bound names. Under these conditions every placeholder is replaced: no
  \<open>@\<close> is left in the result.
\<close>

theorem substitute_order_independent:
  assumes "bindings_ok (variableToValue m)"
    and "covered (map fst (variableToValue m)) template"
    and "mset bs = mset (variableToValue m)"
  shows "fold (\<lambda>(k, v) r. replaceAll r k v) bs template =
           substitute (variableToValue m) template \<and>
         CHR ''@'' \<notin> set (substitute (variableToValue m) template)"
  using substitute_permuted[OF assms] substitute_all_replaced[OF assms(1,2)]
  by (simp add: substitute_def)

theorem substitute_order_independent_witness:
  "bindings_ok [(''@a'', '' 1 ''), (''@b'', '' 2 '')] \<and>
   covered [''@a'', ''@b''] ''@b+@a@b'' \<and>
   mset [(''@b'', '' 2 ''), (''@a'', '' 1 '')] = mset [(''@a'', '' 1 ''), (''@b'', '' 2 '')] \<and>
   fold (\<lambda>(k, v) r. replaceAll r k v) [(''@b'', '' 2 ''), (''@a'', '' 1 '')] ''@b+@a@b'' =
     substitute [(''@a'', '' 1 ''), (''@b'', '' 2 '')] ''@b+@a@b'' \<and>
   CHR ''@'' \<notin> set (substitute [(''@a'', '' 1 ''), (''@b'', '' 2 '')] ''@b+@a@b'') \<and>
   substitute [(''@a'', '' 1 ''), (''@b'', '' 2 '')] ''@b+@a@b'' = '' 2 + 1  2 ''"
proof -
  let ?m = "\<lparr>mp_start = Some 0, mp_end = 9,
             variableToValue = [(''@a'', '' 1 ''), (''@b'', '' 2 '')]\<rparr>"
  have a: "bindings_ok (variableToValue ?m)" by code_simp
  have b: "covered (map fst (variableToValue ?m)) ''@b+@a@b''" by code_simp
  have c: "mset [(''@b'', '' 2 ''), (''@a'', '' 1 '')] = mset (variableToValue ?m)" by simp
  have d: "substitute [(''@a'', '' 1 ''), (''@b'', '' 2 '')] ''@b+@a@b'' = '' 2 + 1  2 ''"
    by code_simp
  from substitute_order_independent[OF a b c] a b c d show ?thesis by simp
qed

text \<open>
  C8, as stated: the two rules \<open>a \<rightarrow> b\<close> and \<open>c \<rightarrow> a\<close> are not self-matching (the
  template of neither matches its own pattern) and both replace loops end, yet
  translating \<^verbatim>\<open>c\<close> gives \<^verbatim>\<open>a\<close> and translating that output again gives \<^verbatim>\<open>b\<close>: the second
  rule produces text for the first rule, which has already run.
\<close>

theorem translateSql_twice_differs:
  "translateSql ''c'' [(''a'', ''b''), (''c'', ''a'')] = Some (Inr ''a'') \<and>
   translateSql ''a'' [(''a'', ''b''), (''c'', ''a'')] = Some (Inr ''b'') \<and>
   no_match ''b'' [\<lparr>blk_text = ''a'', isVariable = False\<rparr>] \<and>
   no_match ''a'' [\<lparr>blk_text = ''c'', isVariable = False\<rparr>]"
  by code_simp

text \<open>
  C8, amended: when \<open>searchAndReplace\<close> returns a string, that string has no match of the
  pattern and \<open>searchAndReplace\<close> with the same pattern and template returns it
  unchanged; so \<open>translateSql\<close> with a single rule returns its own output unchanged; and
  \<open>translateSql\<close> with any rule set returns unchanged a string in which no rule's pattern
  matches.
\<close>

theorem searchAndReplace_idempotent:
  "(searchAndReplace sql pat repl = Some (Inr r) \<longrightarrow>
      no_match r pat \<and> searchAndReplace r pat repl = Some (Inr r)) \<and>
   (translateSql sql1 [(p, t)] = Some (Inr r1) \<longrightarrow> translateSql r1 [(p, t)] = Some (Inr r1)) \<and>
   (list_all (rule_inert r2) rules \<longrightarrow> translateSql r2 rules = Some (Inr r2))"
proof (intro conjI impI)
  assume a: "searchAndReplace sql pat repl = Some (Inr r)"
  then show "no_match r pat" by (rule searchAndReplace_no_match)
  then show "searchAndReplace r pat repl = Some (Inr r)" by (rule searchAndReplace_fixed)
next
  assume "translateSql sql1 [(p, t)] = Some (Inr r1)"
  then obtain pp where pp: "parseSearchPattern p = Inr pp"
    and sr: "searchAndReplace sql1 pp t = Some (Inr r1)"
    by (auto split: sum.splits option.splits)
  from sr have "no_match r1 pp" by (rule searchAndReplace_no_match)
  then have "searchAndReplace r1 pp t = Some (Inr r1)" by (rule searchAndReplace_fixed)
  with pp show "translateSql r1 [(p, t)] = Some (Inr r1)" by simp
next
  assume "list_all (rule_inert r2) rules"
  then show "translateSql r2 rules = Some (Inr r2)" by (rule translateSql_fixed)
qed

theorem searchAndReplace_idempotent_witness:
  "searchAndReplace ''a b a'' [\<lparr>blk_text = ''a'', isVariable = False\<rparr>] ''c'' =
     Some (Inr ''c b c'') \<and>
   no_match ''c b c'' [\<lparr>blk_text = ''a'', isVariable = False\<rparr>] \<and>
   searchAndReplace ''c b c'' [\<lparr>blk_text = ''a'', isVariable = False\<rparr>] ''c'' =
     Some (Inr ''c b c'') \<and>
   translateSql ''f(x) + f(y)'' [(''f(@v)'', ''g[@v]'')] = Some (Inr ''g[x] + g[y]'') \<and>
   translateSql ''g[x] + g[y]'' [(''f(@v)'', ''g[@v]'')] = Some (Inr ''g[x] + g[y]'') \<and>
   list_all (rule_inert ''x y'') [(''a'', ''b''), (''c'', ''a'')] \<and>
   translateSql ''x y'' [(''a'', ''b''), (''c'', ''a'')] = Some (Inr ''x y'')"
proof -
  have a: "searchAndReplace ''a b a'' [\<lparr>blk_text = ''a'', isVariable = False\<rparr>] ''c'' =
     Some (Inr ''c b c'')" by code_simp
  have b: "translateSql ''f(x) + f(y)'' [(''f(@v)'', ''g[@v]'')] = Some (Inr ''g[x] + g[y]'')"
    by code_simp
  have c: "list_all (rule_inert ''x y'') [(''a'', ''b''), (''c'', ''a'')]" by code_simp
  from searchAndReplace_idempotent[of "''a b a''" "[\<lparr>blk_text = ''a'', isVariable = False\<rparr>]"
      "''c''" "''c b c''" "''f(x) + f(y)''" "''f(@v)''" "''g[@v]''" "''g[x] + g[y]''"
      "''x y''" "[(''a'', ''b''), (''c'', ''a'')]"] a b c
  show ?thesis by simp
qed

end
